theory Spec2Isabelle
  imports Complex_Main
begin

section \<open>Text\<close>

text \<open>
  A Python \<open>str\<close> is a sequence of Unicode code points, so a text is a list of
  code points (\<open>nat\<close>); \<open>lit\<close> reads an ASCII literal. The regular-expression
  classes are the ones Python's \<open>re\<close> uses on \<open>str\<close> patterns: \<open>\s\<close> is
  \<open>str.isspace\<close> (written out in full), \<open>[-\<dots>]\<close> of the sources holds the
  hyphen, the en dash (U+2013) and the em dash (U+2014). For \<open>\d\<close> the embedding
  keeps the ASCII digits. \<open>\w\<close> and \<open>str.lower\<close>, which only the name-year checker
  uses, are treated with it.
\<close>

type_synonym pystr = "nat list"

definition lit :: "string \<Rightarrow> pystr" where
  "lit s = map of_char s"

definition is_digit :: "nat \<Rightarrow> bool" where
  "is_digit c = (48 \<le> c \<and> c \<le> 57)"

definition is_space :: "nat \<Rightarrow> bool" where
  "is_space c =
     ((9 \<le> c \<and> c \<le> 13) \<or> (28 \<le> c \<and> c \<le> 32) \<or> c = 133 \<or> c = 160 \<or> c = 5760
      \<or> (8192 \<le> c \<and> c \<le> 8202) \<or> c = 8232 \<or> c = 8233 \<or> c = 8239 \<or> c = 8287
      \<or> c = 12288)"

definition is_dash :: "nat \<Rightarrow> bool" where
  "is_dash c = (c = 45 \<or> c = 8211 \<or> c = 8212)"

text \<open>
  \<open>int(text)\<close> on a run of digits, and \<open>str(n)\<close>. A number is converted whatever
  its length: the limit that recent interpreters put on the number of digits of a
  conversion (4300 by default) is not part of the embedding.
\<close>

definition py_int :: "pystr \<Rightarrow> int" where
  "py_int ds = foldl (\<lambda>a c. 10 * a + int (c - 48)) 0 ds"

fun digits :: "nat \<Rightarrow> pystr" where
  "digits n = (if n < 10 then [48 + n] else digits (n div 10) @ [48 + n mod 10])"

declare digits.simps [simp del]

definition py_str :: "int \<Rightarrow> pystr" where
  "py_str n = (if n < 0 then 45 # digits (nat (- n)) else digits (nat n))"

text \<open>\<open>sep.join(parts)\<close>.\<close>

fun join :: "pystr \<Rightarrow> pystr list \<Rightarrow> pystr" where
  "join sep [] = []"
| "join sep [p] = p"
| "join sep (p # q # ps) = p @ sep @ join sep (q # ps)"

text \<open>An exception that leaves a function of the source is a value of the embedding.\<close>

datatype py_error = IndexError | KeyError | OverflowError

section \<open>Numbers in citation text (Referencenumvalidation.py)\<close>

text \<open>
  \<open>get_numbers\<close> runs \<open>findall\<close> with the pattern
  \<^verbatim>\<open>(\d+)\s*[-dashes]\s*(\d+)|(\d+)\<close>.
  \<open>number_match\<close> is one attempt of the pattern at the head of the text: the three
  groups (an unmatched group is the empty text, as \<open>findall\<close> returns it) and the
  text left after the match. Every quantifier is greedy and what follows it starts with a
  character outside its class, so backtracking never finds a match that the greedy choice
  misses: the first alternative matches when the longest run of digits, then the longest
  run of spaces, is followed by a dash, spaces and a digit; otherwise the second
  alternative takes the longest run of digits.
\<close>

definition number_match :: "pystr \<Rightarrow> ((pystr \<times> pystr \<times> pystr) \<times> pystr) option" where
  "number_match s =
     (let start = takeWhile is_digit s; r1 = dropWhile is_digit s in
      if start = [] then None
      else (case dropWhile is_space r1 of
              [] \<Rightarrow> Some (([], [], start), r1)
            | d # r3 \<Rightarrow>
                if is_dash d then
                  (let r4 = dropWhile is_space r3; e = takeWhile is_digit r4 in
                   if e \<noteq> [] then Some ((start, e, []), dropWhile is_digit r4)
                   else Some (([], [], start), r1))
                else Some (([], [], start), r1)))"

lemma number_match_shorter:
  "number_match s = Some (g, rest) \<Longrightarrow> length rest < length s"
proof -
  assume m: "number_match s = Some (g, rest)"
  have d: "\<And>P (xs::pystr). length (dropWhile P xs) \<le> length xs"
    by (rule length_dropWhile_le)
  have ne: "takeWhile is_digit s \<noteq> []"
    using m by (auto simp: number_match_def Let_def split: if_splits)
  then have r1: "length (dropWhile is_digit s) < length s"
    by (cases s) (auto split: if_splits simp: le_imp_less_Suc length_dropWhile_le)
  show ?thesis
  proof (cases "rest = dropWhile is_digit s")
    case True
    then show ?thesis using r1 by simp
  next
    case False
    then obtain d r3 where
      a: "dropWhile is_space (dropWhile is_digit s) = d # r3" and
      b: "rest = dropWhile is_digit (dropWhile is_space r3)"
      using m ne
      by (auto simp: number_match_def Let_def split: if_splits list.splits)
    have "length rest \<le> length r3"
      unfolding b by (rule order_trans [OF d d])
    also have "length r3 < length (dropWhile is_space (dropWhile is_digit s))"
      by (simp add: a)
    also have "\<dots> \<le> length (dropWhile is_digit s)"
      by (rule d)
    finally show ?thesis using r1 by simp
  qed
qed

function findall_numbers :: "pystr \<Rightarrow> (pystr \<times> pystr \<times> pystr) list" where
  "findall_numbers [] = []"
| "findall_numbers (c # cs) =
     (case number_match (c # cs) of
        None \<Rightarrow> findall_numbers cs
      | Some (g, rest) \<Rightarrow> g # findall_numbers rest)"
  by pat_completeness auto
termination
  by (relation "measure length") (auto dest: number_match_shorter)

text \<open>
  The body of the loop of \<open>get_numbers\<close> for one match: the numbers it adds to
  \<open>nums\<close> when it returns. (\<open>nums.extend(range(s, e + 1))\<close> can also raise; the
  calls with their exception are \<open>extend_numbers\<close> and \<open>get_numbers_checked\<close> below.)
\<close>

fun numbers_of_match :: "pystr \<times> pystr \<times> pystr \<Rightarrow> int list" where
  "numbers_of_match (start, end, single) =
     (if start \<noteq> [] \<and> end \<noteq> [] then
        (let s = py_int start; e = py_int end in if s \<le> e then [s..e] else [])
      else if single \<noteq> [] then [py_int single]
      else [])"

definition get_numbers :: "pystr \<Rightarrow> int list" where
  "get_numbers text = concat (map numbers_of_match (findall_numbers text))"

text \<open>
  \<open>format_numbers\<close>: the loop over \<open>nums[1:]\<close> carries \<open>start\<close>, \<open>prev\<close> and
  \<open>parts\<close>; \<open>run_part\<close> is the text appended for a finished run, in the loop and
  after it.
\<close>

definition run_part :: "int \<Rightarrow> int \<Rightarrow> pystr" where
  "run_part start prev =
     (let length = prev - start + 1 in
      if length \<ge> 3 then py_str start @ lit ''-'' @ py_str prev
      else if length = 2 then py_str start @ lit '','' @ py_str prev
      else py_str start)"

fun format_loop :: "int \<Rightarrow> int \<Rightarrow> pystr list \<Rightarrow> int list \<Rightarrow> pystr list" where
  "format_loop start prev parts [] = parts @ [run_part start prev]"
| "format_loop start prev parts (n # ns) =
     (if n = prev + 1 then format_loop start n parts ns
      else format_loop n n (parts @ [run_part start prev]) ns)"

definition format_numbers :: "int list \<Rightarrow> pystr" where
  "format_numbers nums =
     (case sort (remdups nums) of
        [] \<Rightarrow> []
      | n0 # rest \<Rightarrow> join (lit '', '') (format_loop n0 n0 [] rest))"


section \<open>Documents (the part of python-docx the numeral checker reads and writes)\<close>

text \<open>
  A run has a character style (its name; \<open>None\<close> stands for the document default,
  which is neither \<open>cite_bib\<close> nor \<open>bib_number\<close>), the truth value of
  \<open>font.superscript\<close> and its text. A paragraph has a style name and its runs;
  \<open>para.text\<close> is the concatenation of the run texts. The body is the list of the
  children of \<open>doc._element.body\<close>: paragraphs, tables (rows of cells of paragraphs, as
  \<open>table.rows\<close>, \<open>row.cells\<close> and \<open>cell.paragraphs\<close> list them) and other
  elements. \<open>doc.paragraphs\<close> is the paragraphs among the children of the body.
\<close>

record run =
  run_style :: "pystr option"
  superscript :: bool
  run_text :: pystr

record para =
  para_style :: "pystr option"
  runs :: "run list"

datatype block = Para para | Tbl "para list list list" | Other

record document =
  styles :: "pystr list"
  body :: "block list"

definition para_text :: "para \<Rightarrow> pystr" where
  "para_text p = concat (map run_text (runs p))"

definition strip :: "pystr \<Rightarrow> pystr" where
  "strip s = rev (dropWhile is_space (rev (dropWhile is_space s)))"

fun block_paragraphs :: "block \<Rightarrow> para list" where
  "block_paragraphs (Para p) = [p]"
| "block_paragraphs (Tbl rows) = concat (concat rows)"
| "block_paragraphs Other = []"

definition iter_document_paragraphs :: "document \<Rightarrow> para list" where
  "iter_document_paragraphs doc = concat (map block_paragraphs (body doc))"

text \<open>The class \<^verbatim>\<open>[\d,\-dashes\s]\<close> of the citation patterns.\<close>

definition cite_char :: "nat \<Rightarrow> bool" where
  "cite_char c = (is_digit c \<or> c = 44 \<or> is_dash c \<or> is_space c)"

definition is_citation_run :: "run \<Rightarrow> bool" where
  "is_citation_run r =
     (if run_style r = Some (lit ''cite_bib'') then True
      else if superscript r then
        (let text = strip (run_text r) in
         if text = [] then False else list_all cite_char text)
      else False)"

subsection \<open>Pass 1: bibliography ids and cited numbers\<close>

text \<open>
  A reference object holds the id, the paragraph, the position of the paragraph among the
  children of the body (the source holds the paragraph object itself, and finds the
  position again with \<open>body.index\<close>) and the position of the \<open>bib_number\<close> run in
  the paragraph, when the id was read from one.
\<close>

record ref_object =
  ref_id :: int
  ref_para :: para
  ref_index :: nat
  ref_run :: "nat option"

fun find_bib_run :: "nat \<Rightarrow> run list \<Rightarrow> (int \<times> nat) option" where
  "find_bib_run k [] = None"
| "find_bib_run k (r # rs) =
     (if run_style r = Some (lit ''bib_number'') then
        (case get_numbers (run_text r) of
           [] \<Rightarrow> find_bib_run (k + 1) rs
         | n # _ \<Rightarrow> Some (n, k))
      else find_bib_run (k + 1) rs)"

definition leading_int :: "pystr \<Rightarrow> int option" where
  "leading_int s = (if takeWhile is_digit s = [] then None else Some (py_int (takeWhile is_digit s)))"

definition para_ref :: "para \<Rightarrow> (int \<times> nat option) option" where
  "para_ref p =
     (if para_style p = Some (lit ''REF-N'') then
        (case find_bib_run 0 (runs p) of
           Some (n, k) \<Rightarrow> Some (n, Some k)
         | None \<Rightarrow>
             (case leading_int (strip (para_text p)) of
                Some n \<Rightarrow> Some (n, None)
              | None \<Rightarrow> None))
      else None)"

fun ref_objects_from :: "nat \<Rightarrow> block list \<Rightarrow> ref_object list" where
  "ref_objects_from i [] = []"
| "ref_objects_from i (Para p # bs) =
     (case para_ref p of
        Some (n, k) \<Rightarrow>
          \<lparr>ref_id = n, ref_para = p, ref_index = i, ref_run = k\<rparr> # ref_objects_from (i + 1) bs
      | None \<Rightarrow> ref_objects_from (i + 1) bs)"
| "ref_objects_from i (b # bs) = ref_objects_from (i + 1) bs"

definition get_references_in_bibliography :: "document \<Rightarrow> int set \<times> ref_object list" where
  "get_references_in_bibliography doc =
     (let ref_objects = ref_objects_from 0 (body doc)
      in (set (map ref_id ref_objects), ref_objects))"

text \<open>
  The state of the citation scan: \<open>all_cited_ids\<close>, \<open>appearance_order\<close>, \<open>seen\<close>.
  \<open>record_numbers\<close> is the block the source repeats three times: extend
  \<open>all_cited_ids\<close>, then append every number not seen before.
\<close>

type_synonym cite_state = "int list \<times> int list \<times> int set"

fun note_seen :: "int list \<Rightarrow> int list \<times> int set \<Rightarrow> int list \<times> int set" where
  "note_seen [] st = st"
| "note_seen (n # ns) (order, seen) =
     (if n \<notin> seen then note_seen ns (order @ [n], insert n seen)
      else note_seen ns (order, seen))"

fun record_numbers :: "int list \<Rightarrow> cite_state \<Rightarrow> cite_state" where
  "record_numbers nums (all_cited, order, seen) =
     (case note_seen nums (order, seen) of
        (order', seen') \<Rightarrow> (all_cited @ nums, order', seen'))"

text \<open>
  \<open>findall\<close> of the fallback pattern \<^verbatim>\<open>\^([\d,\-dashes\s]+)\^\<close>: the texts between two
  carets. The class holds no caret, so the greedy run is the only candidate.
\<close>

function caret_findall :: "pystr \<Rightarrow> pystr list" where
  "caret_findall [] = []"
| "caret_findall (c # cs) =
     (if c = 94 \<and> takeWhile cite_char cs \<noteq> [] then
        (case dropWhile cite_char cs of
           [] \<Rightarrow> caret_findall cs
         | d # rest \<Rightarrow> if d = 94 then takeWhile cite_char cs # caret_findall rest
                       else caret_findall cs)
      else caret_findall cs)"
  by pat_completeness auto
termination
proof (relation "measure length")
  fix c :: nat and cs d rest
  assume "dropWhile cite_char cs = d # rest"
  then have "length (d # rest) \<le> length cs"
    using length_dropWhile_le [of cite_char cs] by simp
  then show "(rest, c # cs) \<in> measure length" by simp
qed auto

fun scan_runs :: "run list \<Rightarrow> run list \<Rightarrow> cite_state \<Rightarrow> cite_state" where
  "scan_runs [] current_group st =
     (if current_group \<noteq> [] then
        record_numbers (get_numbers (concat (map run_text current_group))) st
      else st)"
| "scan_runs (r # rs) current_group st =
     (if is_citation_run r then scan_runs rs (current_group @ [r]) st
      else
        (let st1 = (if current_group \<noteq> [] then
                      record_numbers (get_numbers (concat (map run_text current_group))) st
                    else st);
             st2 = fold (\<lambda>m. record_numbers (get_numbers m)) (caret_findall (run_text r)) st1
         in scan_runs rs [] st2))"

definition get_citations_in_text :: "document \<Rightarrow> int list \<times> int list" where
  "get_citations_in_text doc =
     (case fold (\<lambda>para. scan_runs (runs para) []) (iter_document_paragraphs doc) ([], [], {}) of
        (all_cited_ids, appearance_order, seen) \<Rightarrow> (all_cited_ids, appearance_order))"

subsection \<open>The exception of the citation scan\<close>

text \<open>
  \<open>nums.extend(range(s, e + 1))\<close> asks the range for its length, and the length of a
  range of more than \<open>sys.maxsize\<close> numbers raises \<open>OverflowError\<close>. That is no
  \<open>ValueError\<close>, so the handler around the call does not catch it, and neither
  \<open>get_citations_in_text\<close>, \<open>get_validation_stats\<close> nor \<open>process_document\<close> has a
  handler. \<open>maxsize\<close> is \<open>sys.maxsize\<close> of a 64-bit interpreter. (A shorter range that
  does not fit into memory raises \<open>MemoryError\<close>; the embedding leaves memory out.)

  \<open>extend_numbers\<close> is the loop of \<open>get_numbers\<close> over the matches with its state
  \<open>nums\<close>, and the functions after it are the scan of \<open>get_citations_in_text\<close>,
  statement by statement as above, with the exception passed on.
\<close>

definition maxsize :: int where
  "maxsize = 2 ^ 63 - 1"

fun extend_numbers :: "(pystr \<times> pystr \<times> pystr) list \<Rightarrow> int list \<Rightarrow> py_error + int list" where
  "extend_numbers [] nums = Inr nums"
| "extend_numbers ((start, end, single) # rest) nums =
     (if start \<noteq> [] \<and> end \<noteq> [] then
        (let s = py_int start; e = py_int end in
         if s \<le> e then
           (if e + 1 - s > maxsize then Inl OverflowError
            else extend_numbers rest (nums @ [s..e]))
         else extend_numbers rest nums)
      else if single \<noteq> [] then extend_numbers rest (nums @ [py_int single])
      else extend_numbers rest nums)"

definition get_numbers_checked :: "pystr \<Rightarrow> py_error + int list" where
  "get_numbers_checked text = extend_numbers (findall_numbers text) []"

definition record_checked :: "pystr \<Rightarrow> cite_state \<Rightarrow> py_error + cite_state" where
  "record_checked text st =
     (case get_numbers_checked text of
        Inl e \<Rightarrow> Inl e
      | Inr nums \<Rightarrow> Inr (record_numbers nums st))"

text \<open>A \<open>for\<close> loop whose body can raise.\<close>

fun fold_checked :: "('a \<Rightarrow> 's \<Rightarrow> py_error + 's) \<Rightarrow> 'a list \<Rightarrow> 's \<Rightarrow> py_error + 's" where
  "fold_checked f [] st = Inr st"
| "fold_checked f (x # xs) st =
     (case f x st of
        Inl e \<Rightarrow> Inl e
      | Inr st1 \<Rightarrow> fold_checked f xs st1)"

fun scan_runs_checked :: "run list \<Rightarrow> run list \<Rightarrow> cite_state \<Rightarrow> py_error + cite_state" where
  "scan_runs_checked [] current_group st =
     (if current_group \<noteq> [] then
        record_checked (concat (map run_text current_group)) st
      else Inr st)"
| "scan_runs_checked (r # rs) current_group st =
     (if is_citation_run r then scan_runs_checked rs (current_group @ [r]) st
      else
        (case (if current_group \<noteq> [] then
                 record_checked (concat (map run_text current_group)) st
               else Inr st) of
           Inl e \<Rightarrow> Inl e
         | Inr st1 \<Rightarrow>
             (case fold_checked record_checked (caret_findall (run_text r)) st1 of
                Inl e \<Rightarrow> Inl e
              | Inr st2 \<Rightarrow> scan_runs_checked rs [] st2)))"

definition get_citations_in_text_checked :: "document \<Rightarrow> py_error + int list \<times> int list" where
  "get_citations_in_text_checked doc =
     (case fold_checked (\<lambda>para. scan_runs_checked (runs para) [])
             (iter_document_paragraphs doc) ([], [], {}) of
        Inl e \<Rightarrow> Inl e
      | Inr (all_cited_ids, appearance_order, seen) \<Rightarrow> Inr (all_cited_ids, appearance_order))"

subsection \<open>Duplicate detection\<close>

text \<open>
  \<open>difflib.SequenceMatcher\<close> and the built-in \<open>round\<close> belong to Python's
  library, not to the repository: they are parameters of the embedding. \<open>ratio L a b\<close>
  is \<open>SequenceMatcher(None, a, b).ratio()\<close>, and so for the two quick ratios;
  \<open>round1 L x\<close> is \<open>round(x, 1)\<close>. Floating-point numbers are the rationals they
  stand for; the comparisons with \<open>0.6\<close>, \<open>0.8\<close> and \<open>0.85\<close> are those of the
  source for every text shorter than \<open>2 ^ 50\<close> characters.
\<close>

record library =
  ratio :: "pystr \<Rightarrow> pystr \<Rightarrow> rat"
  quick_ratio :: "pystr \<Rightarrow> pystr \<Rightarrow> rat"
  real_quick_ratio :: "pystr \<Rightarrow> pystr \<Rightarrow> rat"
  round1 :: "rat \<Rightarrow> rat"

record 'k duplicate =
  dup_id :: 'k
  dup_text :: pystr
  duplicate_of :: 'k
  score :: rat

text \<open>\<^verbatim>\<open>re.sub(r'^\[?\d+\]?[\.\s]*', '', full_text)\<close>: the leading numbering goes.\<close>

definition clean_text :: "pystr \<Rightarrow> pystr" where
  "clean_text s =
     (let s1 = (case s of [] \<Rightarrow> s | c # cs \<Rightarrow> if c = 91 then cs else s) in
      if takeWhile is_digit s1 = [] then s
      else
        (let s2 = dropWhile is_digit s1;
             s3 = (case s2 of [] \<Rightarrow> s2 | c # cs \<Rightarrow> if c = 93 then cs else s2)
         in dropWhile (\<lambda>c. c = 46 \<or> is_space c) s3))"

definition length_ratio :: "pystr \<Rightarrow> pystr \<Rightarrow> rat" where
  "length_ratio a b = of_nat (min (length a) (length b)) / of_nat (max (length a) (length b))"

text \<open>The loop over \<open>j\<close> for one \<open>ref_a\<close>, and the loop over \<open>i\<close>.\<close>

fun num_dup_inner :: "library \<Rightarrow> int \<times> pystr \<Rightarrow> (int \<times> pystr) list \<Rightarrow> int duplicate list" where
  "num_dup_inner L ref_a [] = []"
| "num_dup_inner L ref_a (ref_b # later) =
     (if length (snd ref_b) = 0 then num_dup_inner L ref_a later
      else if length_ratio (snd ref_a) (snd ref_b) < 6 / 10 then num_dup_inner L ref_a later
      else if real_quick_ratio L (snd ref_a) (snd ref_b) < 85 / 100 then num_dup_inner L ref_a later
      else if quick_ratio L (snd ref_a) (snd ref_b) < 85 / 100 then num_dup_inner L ref_a later
      else if ratio L (snd ref_a) (snd ref_b) > 85 / 100 then
        \<lparr>dup_id = fst ref_b, dup_text = take 100 (snd ref_b) @ lit ''...'',
         duplicate_of = fst ref_a,
         score = round1 L (ratio L (snd ref_a) (snd ref_b) * 100)\<rparr> # num_dup_inner L ref_a later
      else num_dup_inner L ref_a later)"

fun num_dup_outer :: "library \<Rightarrow> (int \<times> pystr) list \<Rightarrow> int duplicate list" where
  "num_dup_outer L [] = []"
| "num_dup_outer L (ref_a # later) =
     (if length (snd ref_a) = 0 then num_dup_outer L later
      else num_dup_inner L ref_a later @ num_dup_outer L later)"

definition num_processed_refs :: "ref_object list \<Rightarrow> (int \<times> pystr) list" where
  "num_processed_refs ref_objects =
     map (\<lambda>obj. (ref_id obj, clean_text (strip (para_text (ref_para obj))))) ref_objects"

definition num_find_duplicates :: "library \<Rightarrow> ref_object list \<Rightarrow> int duplicate list" where
  "num_find_duplicates L ref_objects = num_dup_outer L (num_processed_refs ref_objects)"

text \<open>
  The same computation without the two guards on \<open>real_quick_ratio\<close> and
  \<open>quick_ratio\<close> (as the variant in ReferenceAPAValidation.py has it).
\<close>

fun num_dup_inner_unguarded :: "library \<Rightarrow> int \<times> pystr \<Rightarrow> (int \<times> pystr) list \<Rightarrow> int duplicate list" where
  "num_dup_inner_unguarded L ref_a [] = []"
| "num_dup_inner_unguarded L ref_a (ref_b # later) =
     (if length (snd ref_b) = 0 then num_dup_inner_unguarded L ref_a later
      else if length_ratio (snd ref_a) (snd ref_b) < 6 / 10 then num_dup_inner_unguarded L ref_a later
      else if ratio L (snd ref_a) (snd ref_b) > 85 / 100 then
        \<lparr>dup_id = fst ref_b, dup_text = take 100 (snd ref_b) @ lit ''...'',
         duplicate_of = fst ref_a,
         score = round1 L (ratio L (snd ref_a) (snd ref_b) * 100)\<rparr>
        # num_dup_inner_unguarded L ref_a later
      else num_dup_inner_unguarded L ref_a later)"

fun num_dup_outer_unguarded :: "library \<Rightarrow> (int \<times> pystr) list \<Rightarrow> int duplicate list" where
  "num_dup_outer_unguarded L [] = []"
| "num_dup_outer_unguarded L (ref_a # later) =
     (if length (snd ref_a) = 0 then num_dup_outer_unguarded L later
      else num_dup_inner_unguarded L ref_a later @ num_dup_outer_unguarded L later)"

definition num_find_duplicates_unguarded :: "library \<Rightarrow> ref_object list \<Rightarrow> int duplicate list" where
  "num_find_duplicates_unguarded L ref_objects =
     num_dup_outer_unguarded L (num_processed_refs ref_objects)"

subsection \<open>Pass 2: validation\<close>

record issue =
  position :: nat
  current :: int
  expected :: nat

record stats =
  total_references :: nat
  total_citations :: nat
  missing_references :: "int list"
  unused_references :: "int list"
  duplicate_references :: "int duplicate list"
  sequence_issues :: "issue list"
  is_perfect :: bool

text \<open>
  The walk over \<open>all_cited\<close>, with its state \<open>sequence_issues\<close>, \<open>seen_in_seq\<close> and
  \<open>previous_max\<close>.
\<close>

fun sequence_walk :: "int list \<Rightarrow> issue list \<times> int list \<times> int \<Rightarrow> issue list \<times> int list \<times> int" where
  "sequence_walk [] st = st"
| "sequence_walk (n # ns) (issues, seen_in_seq, previous_max) =
     (if n \<notin> set seen_in_seq then
        sequence_walk ns
          (if n \<noteq> int (length seen_in_seq + 1) then
             issues @ [\<lparr>position = length seen_in_seq + 1, current = n,
                        expected = length seen_in_seq + 1\<rparr>]
           else issues,
           seen_in_seq @ [n], max previous_max n)
      else sequence_walk ns (issues, seen_in_seq, previous_max))"

definition get_validation_stats :: "library \<Rightarrow> document \<Rightarrow> stats" where
  "get_validation_stats L doc =
     (case get_references_in_bibliography doc of
        (bib_refs, ref_objects) \<Rightarrow>
          (let all_cited = fst (get_citations_in_text doc);
               unique_cited = set all_cited;
               missing = sorted_list_of_set (unique_cited - bib_refs);
               unused = sorted_list_of_set (bib_refs - unique_cited);
               duplicates = num_find_duplicates L ref_objects;
               issues = fst (sequence_walk all_cited ([], [], 0))
           in \<lparr>total_references = card bib_refs,
               total_citations = length all_cited,
               missing_references = missing,
               unused_references = unused,
               duplicate_references = duplicates,
               sequence_issues = issues,
               is_perfect = (missing = [] \<and> unused = [] \<and> issues = [] \<and> duplicates = [])\<rparr>))"

subsection \<open>The renumber transform\<close>

text \<open>
  A Python \<open>dict\<close> keeps its keys in insertion order: the mapping is an association
  list, read with \<open>map_of\<close>. \<open>dict_set\<close> is \<open>mapping[k] = v\<close>.
\<close>

fun dict_set :: "'k \<Rightarrow> 'v \<Rightarrow> ('k \<times> 'v) list \<Rightarrow> ('k \<times> 'v) list" where
  "dict_set k v [] = [(k, v)]"
| "dict_set k v ((k', v') # kvs) =
     (if k' = k then (k, v) # kvs else (k', v') # dict_set k v kvs)"

fun build_mapping :: "int list \<Rightarrow> int \<Rightarrow> (int \<times> int) list \<Rightarrow> (int \<times> int) list" where
  "build_mapping [] new_id mapping = mapping"
| "build_mapping (old_id # order) new_id mapping =
     build_mapping order (new_id + 1) (dict_set old_id new_id mapping)"

definition mapping_get :: "(int \<times> int) list \<Rightarrow> int \<Rightarrow> int" where
  "mapping_get mapping n = (case map_of mapping n of Some v \<Rightarrow> v | None \<Rightarrow> n)"

text \<open>
  \<open>search\<close> of \<^verbatim>\<open>(\^|\[|\()([\d,\-dashes\s]+)(\^|\]|\))\<close>: the text before the
  leftmost match, group 2 and the text after the match.
\<close>

definition is_opener :: "nat \<Rightarrow> bool" where
  "is_opener c = (c = 94 \<or> c = 91 \<or> c = 40)"

definition is_closer :: "nat \<Rightarrow> bool" where
  "is_closer c = (c = 94 \<or> c = 93 \<or> c = 41)"

fun citation_search :: "pystr \<Rightarrow> (pystr \<times> pystr \<times> pystr) option" where
  "citation_search [] = None"
| "citation_search (c # cs) =
     (if is_opener c \<and> takeWhile cite_char cs \<noteq> []
         \<and> (case dropWhile cite_char cs of [] \<Rightarrow> False | d # _ \<Rightarrow> is_closer d)
      then Some ([], takeWhile cite_char cs, tl (dropWhile cite_char cs))
      else (case citation_search cs of
              None \<Rightarrow> None
            | Some (pre, nums, post) \<Rightarrow> Some (c # pre, nums, post)))"

lemma citation_search_shorter:
  "citation_search s = Some (pre, nums, post) \<Longrightarrow> length post < length s"
proof (induction s arbitrary: pre)
  case Nil
  then show ?case by simp
next
  case (Cons c cs)
  show ?case
  proof (cases "is_opener c \<and> takeWhile cite_char cs \<noteq> []
         \<and> (case dropWhile cite_char cs of [] \<Rightarrow> False | d # _ \<Rightarrow> is_closer d)")
    case True
    then have "post = tl (dropWhile cite_char cs)" using Cons.prems by simp
    then have "length post \<le> length cs"
      using length_dropWhile_le [of cite_char cs] by simp
    then show ?thesis by simp
  next
    case False
    then obtain pre' where "citation_search cs = Some (pre', nums, post)"
      using Cons.prems by (auto split: option.splits)
    from Cons.IH [OF this] show ?thesis by simp
  qed
qed

text \<open>
  The \<open>while i < len(para.runs)\<close> loop of one paragraph. A run with a match keeps the text
  before it, a new \<open>cite_bib\<close> run follows with the converted numbers, and the text
  after the match, when there is some, becomes a run of its own, which the loop visits
  next (\<open>i\<close> advances by two).
\<close>

definition convert :: "(int \<times> int) list \<Rightarrow> pystr \<Rightarrow> pystr" where
  "convert mapping text = format_numbers (map (mapping_get mapping) (get_numbers text))"

function renumber_runs :: "(int \<times> int) list \<Rightarrow> run list \<Rightarrow> run list" where
  "renumber_runs mapping [] = []"
| "renumber_runs mapping (r # rs) =
     (case citation_search (run_text r) of
        Some (pre_text, nums, post_text) \<Rightarrow>
          r\<lparr>run_text := pre_text\<rparr>
          # \<lparr>run_style = Some (lit ''cite_bib''), superscript = True,
             run_text = convert mapping nums\<rparr>
          # (if post_text \<noteq> [] then
               renumber_runs mapping
                 (\<lparr>run_style = run_style r, superscript = False, run_text = post_text\<rparr> # rs)
             else renumber_runs mapping rs)
      | None \<Rightarrow>
          (if is_citation_run r \<and> get_numbers (run_text r) \<noteq> [] then
             r\<lparr>run_text := convert mapping (run_text r),
               run_style := Some (lit ''cite_bib''), superscript := True\<rparr>
           else r) # renumber_runs mapping rs)"
  by pat_completeness auto
termination
  by (relation "measure (\<lambda>(m, rs). sum_list (map (\<lambda>r. Suc (length (run_text r))) rs))")
     (auto dest: citation_search_shorter)

definition renumber_paragraph :: "(int \<times> int) list \<Rightarrow> para \<Rightarrow> para" where
  "renumber_paragraph mapping p = p\<lparr>runs := renumber_runs mapping (runs p)\<rparr>"

fun renumber_block :: "(int \<times> int) list \<Rightarrow> block \<Rightarrow> block" where
  "renumber_block mapping (Para p) = Para (renumber_paragraph mapping p)"
| "renumber_block mapping (Tbl rows) = Tbl (map (map (map (renumber_paragraph mapping))) rows)"
| "renumber_block mapping Other = Other"

text \<open>
  The bibliography reorder. Every reference object is a child of the body
  (\<open>doc.paragraphs\<close>), so \<open>body.index\<close> finds each of them and \<open>getparent() == body\<close> holds
  for each; the anchor is the least position. The paragraphs are removed, then the cited
  ones are inserted at the anchor in the order of their new ids (Python's sort is
  stable, as \<open>sort_key\<close> is), each with its \<open>bib_number\<close> run rewritten, and the
  uncited ones after them.
\<close>

definition set_bib_run :: "ref_object \<Rightarrow> int \<Rightarrow> para" where
  "set_bib_run obj new_id =
     (case ref_run obj of
        None \<Rightarrow> ref_para obj
      | Some k \<Rightarrow>
          (ref_para obj)\<lparr>runs := (runs (ref_para obj))
             [k := (runs (ref_para obj) ! k)\<lparr>run_text := py_str new_id\<rparr>]\<rparr>)"

definition remove_at :: "nat list \<Rightarrow> 'a list \<Rightarrow> 'a list" where
  "remove_at idxs xs = map snd (filter (\<lambda>(i, x). i \<notin> set idxs) (enumerate 0 xs))"

definition reorder_bibliography :: "(int \<times> int) list \<Rightarrow> block list \<Rightarrow> block list" where
  "reorder_bibliography mapping blocks =
     (let ref_objects = ref_objects_from 0 blocks;
          cited_refs = List.map_filter
             (\<lambda>obj. case map_of mapping (ref_id obj) of
                       None \<Rightarrow> None | Some new_id \<Rightarrow> Some (new_id, obj)) ref_objects;
          uncited_refs = filter (\<lambda>obj. map_of mapping (ref_id obj) = None) ref_objects
      in case map ref_index ref_objects of
           [] \<Rightarrow> blocks
         | i # indices \<Rightarrow>
             (let anchor = fold min indices i;
                  others = remove_at (i # indices) blocks
              in take anchor others
                 @ map (\<lambda>(new_id, obj). Para (set_bib_run obj new_id)) (sort_key fst cited_refs)
                 @ map (\<lambda>obj. Para (ref_para obj)) uncited_refs
                 @ drop anchor others))"

definition renumber :: "document \<Rightarrow> document \<times> (int \<times> int) list" where
  "renumber doc =
     (let appearance_order = snd (get_citations_in_text doc);
          styles' = (if lit ''cite_bib'' \<in> set (styles doc) then styles doc
                     else styles doc @ [lit ''cite_bib'']);
          mapping = build_mapping appearance_order 1 [];
          blocks = map (renumber_block mapping) (body doc)
      in (\<lparr>styles = styles', body = reorder_bibliography mapping blocks\<rparr>, mapping))"

subsection \<open>\<open>process_document\<close>\<close>

definition process_document ::
  "library \<Rightarrow> document \<Rightarrow> document \<times> stats \<times> stats \<times> (int \<times> int) list \<times> pystr" where
  "process_document L doc =
     (let before_stats = get_validation_stats L doc in
      if unused_references before_stats \<noteq> [] then
        (doc, before_stats, before_stats, [],
         lit ''Aborted: Document validation failed due to unused references.'')
      else if is_perfect before_stats then
        (doc, before_stats, before_stats, [], lit ''Validation completed.'')
      else if missing_references before_stats \<noteq> [] then
        (doc, before_stats, before_stats, [], lit ''Aborted: Missing references detected.'')
      else
        (case renumber doc of
           (doc', mapping) \<Rightarrow>
             (let after_stats = get_validation_stats L doc';
                  changes_made = list_ex (\<lambda>(k, v). k \<noteq> v) mapping;
                  count = length (duplicate_references before_stats);
                  status_msg =
                    (if duplicate_references before_stats \<noteq> [] then
                       (if changes_made then lit ''Renumbering'' else lit ''Validation'')
                       @ lit '' completed with '' @ py_str (int count) @ lit '' duplicate''
                       @ (if count > 1 then lit ''s'' else []) @ lit ''.''
                     else if changes_made then lit ''Renumbering completed successfully.''
                     else lit ''Validation completed.'')
              in (doc', before_stats, after_stats, mapping, status_msg))))"

text \<open>
  \<open>process_document\<close> with its exception, on a document that has no paragraph of style
  \<open>REF-N\<close>. The first call of \<open>get_validation_stats\<close> reads the bibliography, where
  it finds no such paragraph and calls nothing that raises, and then scans the citations;
  an exception of the scan leaves \<open>get_validation_stats\<close> and \<open>process_document\<close>.
  When the scan returns, what follows is the computation above.
\<close>

definition process_no_bibliography ::
  "library \<Rightarrow> document \<Rightarrow> py_error + document \<times> stats \<times> stats \<times> (int \<times> int) list \<times> pystr" where
  "process_no_bibliography L doc =
     (case get_citations_in_text_checked doc of
        Inl e \<Rightarrow> Inl e
      | Inr cited \<Rightarrow> Inr (process_document L doc))"


section \<open>The numeric round trip\<close>

fun sep_runs :: "(int \<times> int) list \<Rightarrow> bool" where
  "sep_runs [] = True"
| "sep_runs [(a, b)] = (a \<le> b)"
| "sep_runs ((a, b) # (c, d) # rs) = (a \<le> b \<and> b + 1 < c \<and> sep_runs ((c, d) # rs))"

definition span :: "int \<times> int \<Rightarrow> int list" where
  "span r = [fst r..snd r]"

lemma py_int_snoc: "py_int (ds @ [c]) = 10 * py_int ds + int (c - 48)"
  by (simp add: py_int_def)

lemma digits_all: "list_all is_digit (digits n)"
proof (induction n rule: digits.induct)
  case (1 n)
  show ?case
  proof (cases "n < 10")
    case True
    then show ?thesis by (subst digits.simps) (simp add: is_digit_def)
  next
    case False
    have "n mod 10 < 10" by simp
    then have "is_digit (48 + n mod 10)" unfolding is_digit_def by linarith
    with False 1 show ?thesis by (subst digits.simps) simp
  qed
qed

lemma digits_nonempty: "digits n \<noteq> []"
  by (subst digits.simps) simp

lemma py_int_digits: "py_int (digits n) = int n"
proof (induction n rule: digits.induct)
  case (1 n)
  show ?case
  proof (cases "n < 10")
    case True
    then show ?thesis by (subst digits.simps) (simp add: py_int_def)
  next
    case False
    with 1 have "py_int (digits (n div 10)) = int (n div 10)" by simp
    with False show ?thesis
      by (subst digits.simps) (simp add: py_int_snoc zdiv_int zmod_int)
  qed
qed

definition no_digit_head :: "pystr \<Rightarrow> bool" where
  "no_digit_head s = (case s of [] \<Rightarrow> True | c # _ \<Rightarrow> \<not> is_digit c)"

lemma takeWhile_digits: "no_digit_head r \<Longrightarrow> takeWhile is_digit (digits n @ r) = digits n"
  using digits_all [of n]
  by (cases r) (auto simp: no_digit_head_def list_all_iff takeWhile_append2 intro!: takeWhile_eq_all_conv[THEN iffD2])

lemma dropWhile_digits: "no_digit_head r \<Longrightarrow> dropWhile is_digit (digits n @ r) = r"
  using digits_all [of n]
  by (cases r) (auto simp: no_digit_head_def list_all_iff dropWhile_append2)


lemma number_match_range:
  assumes "no_digit_head r"
  shows "number_match (digits a @ 45 # digits b @ r) = Some ((digits a, digits b, []), r)"
proof -
  have h: "no_digit_head (45 # digits b @ r)"
    by (simp add: no_digit_head_def is_digit_def)
  have t: "takeWhile is_digit (digits a @ 45 # digits b @ r) = digits a"
    by (rule takeWhile_digits [OF h])
  have d: "dropWhile is_digit (digits a @ 45 # digits b @ r) = 45 # digits b @ r"
    by (rule dropWhile_digits [OF h])
  have s: "dropWhile is_space (45 # digits b @ r) = 45 # digits b @ r"
    by (simp add: is_space_def)
  have z: "dropWhile is_space (digits b @ r) = digits b @ r"
    using digits_all [of b] digits_nonempty [of b]
    by (cases "digits b") (auto simp: is_digit_def is_space_def)
  have t2: "takeWhile is_digit (digits b @ r) = digits b"
    by (rule takeWhile_digits [OF assms])
  have d2: "dropWhile is_digit (digits b @ r) = r"
    by (rule dropWhile_digits [OF assms])
  show ?thesis
    unfolding number_match_def Let_def t d s
    by (simp add: z t2 d2 digits_nonempty is_dash_def)
qed

definition sep_tail :: "pystr \<Rightarrow> bool" where
  "sep_tail r = (case r of [] \<Rightarrow> True | c # _ \<Rightarrow> c = 44)"

lemma number_match_single:
  assumes "sep_tail r"
  shows "number_match (digits a @ r) = Some (([], [], digits a), r)"
proof -
  have h: "no_digit_head r"
    using assms by (auto simp: sep_tail_def no_digit_head_def is_digit_def split: list.splits)
  have t: "takeWhile is_digit (digits a @ r) = digits a"
    by (rule takeWhile_digits [OF h])
  have d: "dropWhile is_digit (digits a @ r) = r"
    by (rule dropWhile_digits [OF h])
  have s: "dropWhile is_space r = r"
    using assms by (auto simp: sep_tail_def is_space_def split: list.splits)
  show ?thesis
    unfolding number_match_def Let_def t d s
    using assms
    by (auto simp: digits_nonempty is_dash_def sep_tail_def split: list.splits)
qed

declare findall_numbers.simps [simp del]

lemma findall_match:
  "number_match s = Some (g, rest) \<Longrightarrow> findall_numbers s = g # findall_numbers rest"
  by (cases s) (auto simp: number_match_def findall_numbers.simps)

lemma number_match_no_digit: "\<not> is_digit c \<Longrightarrow> number_match (c # cs) = None"
  by (simp add: number_match_def Let_def)

lemma findall_skip: "\<not> is_digit c \<Longrightarrow> findall_numbers (c # cs) = findall_numbers cs"
  by (simp add: number_match_no_digit findall_numbers.simps)

lemma get_numbers_match:
  "number_match s = Some (g, rest) \<Longrightarrow> get_numbers s = numbers_of_match g @ get_numbers rest"
  by (simp add: get_numbers_def findall_match)

lemma get_numbers_skip: "\<not> is_digit c \<Longrightarrow> get_numbers (c # cs) = get_numbers cs"
  by (simp add: get_numbers_def findall_skip)

lemma get_numbers_Nil: "get_numbers [] = []"
  by (simp add: get_numbers_def findall_numbers.simps)

lemma py_str_nonneg: "0 \<le> n \<Longrightarrow> py_str n = digits (nat n)"
  by (simp add: py_str_def)

lemma get_numbers_run_part:
  assumes "0 \<le> s" "s \<le> p" "sep_tail r"
  shows "get_numbers (run_part s p @ r) = [s..p] @ get_numbers r"
proof -
  have nd: "no_digit_head r"
    using assms(3) by (auto simp: sep_tail_def no_digit_head_def is_digit_def split: list.splits)
  have ps: "py_str s = digits (nat s)" and pp: "py_str p = digits (nat p)"
    using assms by (simp_all add: py_str_nonneg)
  have is_: "py_int (digits (nat s)) = s" and ip: "py_int (digits (nat p)) = p"
    using assms by (simp_all add: py_int_digits)
  consider (long) "p - s + 1 \<ge> 3" | (two) "p = s + 1" | (one) "p = s"
    using assms by linarith
  then show ?thesis
  proof cases
    case long
    then have "run_part s p @ r = digits (nat s) @ 45 # digits (nat p) @ r"
      by (simp add: run_part_def lit_def ps pp)
    then show ?thesis
      using get_numbers_match [OF number_match_range [OF nd, of "nat s" "nat p"]] assms
      by (simp add: is_ ip digits_nonempty)
  next
    case two
    have t: "sep_tail (44 # digits (nat p) @ r)" by (simp add: sep_tail_def)
    have l: "p - s + 1 = 2" using two by simp
    have e: "run_part s p @ r = digits (nat s) @ 44 # digits (nat p) @ r"
      by (simp add: run_part_def lit_def ps pp l)
    have "get_numbers (run_part s p @ r) = [s] @ get_numbers (44 # digits (nat p) @ r)"
      unfolding e using get_numbers_match [OF number_match_single [OF t, of "nat s"]]
      by (simp add: is_ digits_nonempty)
    also have "get_numbers (44 # digits (nat p) @ r) = get_numbers (digits (nat p) @ r)"
      by (rule get_numbers_skip) (simp add: is_digit_def)
    also have "\<dots> = [p] @ get_numbers r"
      using get_numbers_match [OF number_match_single [OF assms(3), of "nat p"]]
      by (simp add: ip digits_nonempty)
    finally show ?thesis using two by (simp add: upto_rec1)
  next
    case one
    then have e: "run_part s p @ r = digits (nat s) @ r"
      by (simp add: run_part_def ps)
    show ?thesis
      unfolding e using get_numbers_match [OF number_match_single [OF assms(3), of "nat s"]] one
      by (simp add: is_ digits_nonempty)
  qed
qed

lemma format_loop_parts: "format_loop s p parts ns = parts @ format_loop s p [] ns"
proof (induction ns arbitrary: s p parts)
  case Nil
  show ?case by simp
next
  case (Cons n ns)
  show ?case
  proof (cases "n = p + 1")
    case True
    then show ?thesis using Cons [of s n parts] by simp
  next
    case False
    then show ?thesis
      using Cons [of n n "parts @ [run_part s p]"] Cons [of n n "[run_part s p]"] by simp
  qed
qed

lemma format_loop_nonempty: "format_loop s p parts ns \<noteq> []"
  by (induction ns arbitrary: s p parts) auto

lemma join_Cons: "ps \<noteq> [] \<Longrightarrow> join sep (p # ps) = p @ sep @ join sep ps"
  by (cases ps) auto

lemma get_numbers_join_loop:
  assumes "0 \<le> s" "s \<le> p" "sorted_wrt (<) (p # ns)"
  shows "get_numbers (join (lit '', '') (format_loop s p [] ns)) = [s..p] @ ns"
  using assms
proof (induction ns arbitrary: s p)
  case Nil
  have "sep_tail []" by (simp add: sep_tail_def)
  from get_numbers_run_part [OF Nil(1,2) this] show ?case
    by (simp add: get_numbers_Nil)
next
  case (Cons n ns)
  have pn: "p < n" and sn: "sorted_wrt (<) (n # ns)"
    using Cons.prems(3) by auto
  show ?case
  proof (cases "n = p + 1")
    case True
    have "get_numbers (join (lit '', '') (format_loop s n [] ns)) = [s..n] @ ns"
      using Cons.IH [of s n] Cons.prems pn sn by simp
    moreover have "[s..n] = [s..p] @ [n]"
      using True Cons.prems by (simp add: upto_rec2)
    ultimately show ?thesis using True by simp
  next
    case False
    let ?rest = "format_loop n n [] ns"
    have ih: "get_numbers (join (lit '', '') ?rest) = [n..n] @ ns"
      using Cons.IH [of n n] Cons.prems pn sn by simp
    have fl: "format_loop s p [] (n # ns) = run_part s p # ?rest"
      using False format_loop_parts [of n n "[run_part s p]" ns] by simp
    have t: "sep_tail (lit '', '' @ join (lit '', '') ?rest)"
      by (simp add: sep_tail_def lit_def)
    have "get_numbers (join (lit '', '') (format_loop s p [] (n # ns)))
        = get_numbers (run_part s p @ lit '', '' @ join (lit '', '') ?rest)"
      unfolding fl by (simp add: join_Cons format_loop_nonempty)
    also have "\<dots> = [s..p] @ get_numbers (lit '', '' @ join (lit '', '') ?rest)"
      by (rule get_numbers_run_part [OF Cons.prems(1,2) t])
    also have "get_numbers (lit '', '' @ join (lit '', '') ?rest) = get_numbers (join (lit '', '') ?rest)"
      by (simp add: lit_def get_numbers_skip is_digit_def)
    finally show ?thesis using ih by simp
  qed
qed

lemma sort_remdups_strict: "sorted_wrt (<) (ids::int list) \<Longrightarrow> sort (remdups ids) = ids"
  by (simp add: strict_sorted_iff distinct_remdups_id sorted_sort_id)

lemma roundtrip:
  assumes "sorted_wrt (<) ids" "list_all (\<lambda>n. 0 \<le> n) ids"
  shows "get_numbers (format_numbers ids) = ids"
proof (cases ids)
  case Nil
  then show ?thesis by (simp add: format_numbers_def get_numbers_Nil)
next
  case (Cons n ns)
  then have n0: "0 \<le> n" using assms(2) by simp
  have "format_numbers ids = join (lit '', '') (format_loop n n [] ns)"
    unfolding format_numbers_def sort_remdups_strict [OF assms(1)] by (simp add: Cons)
  then show ?thesis
    using get_numbers_join_loop [of n n ns] assms(1) Cons n0 by simp
qed


definition run_text_of :: "int \<times> int \<Rightarrow> pystr" where
  "run_text_of r =
     (if snd r \<ge> fst r + 2 then py_str (fst r) @ lit ''-'' @ py_str (snd r)
      else if snd r = fst r + 1 then py_str (fst r) @ lit '','' @ py_str (snd r)
      else py_str (fst r))"

lemma run_part_text: "a \<le> b \<Longrightarrow> run_part a b = run_text_of (a, b)"
  by (auto simp: run_part_def run_text_of_def Let_def)

lemma format_loop_span:
  "p \<le> b \<Longrightarrow> format_loop s p [] ([p + 1..b] @ rest) = format_loop s b [] rest"
proof (induction "nat (b - p)" arbitrary: p)
  case 0
  then have "p = b" by simp
  then show ?case by simp
next
  case (Suc k)
  then have lt: "p < b" by linarith
  then have u: "[p + 1..b] = (p + 1) # [p + 1 + 1..b]" by (simp add: upto_rec1)
  have "k = nat (b - (p + 1))" using Suc(2) by linarith
  from Suc(1) [OF this] lt
  have "format_loop s (p + 1) [] ([p + 1 + 1..b] @ rest) = format_loop s b [] rest" by simp
  then show ?case unfolding u by simp
qed

lemma sep_runs_lower:
  "sep_runs ((c, d) # rs) \<Longrightarrow> x \<in> set (concat (map span ((c, d) # rs))) \<Longrightarrow> c \<le> x"
proof (induction rs arbitrary: c d)
  case Nil
  then show ?case by (simp add: span_def)
next
  case (Cons r rs)
  obtain e f where r: "r = (e, f)" by (cases r)
  from Cons.prems(2) have "x \<in> set (span (c, d)) \<or> x \<in> set (concat (map span ((e, f) # rs)))"
    by (simp add: r)
  then show ?case
  proof
    assume "x \<in> set (span (c, d))"
    then show ?thesis by (simp add: span_def)
  next
    assume "x \<in> set (concat (map span ((e, f) # rs)))"
    moreover have "sep_runs ((e, f) # rs)" using Cons.prems(1) by (simp add: r)
    ultimately have "e \<le> x" by (rule Cons.IH [rotated])
    then show ?thesis using Cons.prems(1) by (simp add: r)
  qed
qed

lemma sep_runs_sorted: "sep_runs rs \<Longrightarrow> sorted_wrt (<) (concat (map span rs))"
proof (induction rs rule: sep_runs.induct)
  case 1
  show ?case by simp
next
  case (2 a b)
  show ?case by (simp add: span_def sorted_wrt_append strict_sorted_iff) 
next
  case (3 a b c d rs)
  have s: "sep_runs ((c, d) # rs)" using 3(2) by simp
  have lt: "\<forall>x\<in>set [a..b]. \<forall>y\<in>set (concat (map span ((c, d) # rs))). x < y"
  proof (intro ballI)
    fix x y
    assume "x \<in> set [a..b]" "y \<in> set (concat (map span ((c, d) # rs)))"
    then have "x \<le> b" "c \<le> y" using sep_runs_lower [OF s] by auto
    then show "x < y" using 3(2) by simp
  qed
  have sa: "sorted_wrt (<) [a..b]" by (simp add: strict_sorted_iff)
  have e: "concat (map span ((a, b) # (c, d) # rs)) = [a..b] @ concat (map span ((c, d) # rs))"
    by (simp add: span_def)
  show ?case
    unfolding e sorted_wrt_append using 3(1) [OF s] lt sa by blast
qed

lemma format_loop_runs:
  "sep_runs ((a, b) # rs) \<Longrightarrow>
   format_loop a b [] (concat (map span rs)) = map run_text_of ((a, b) # rs)"
proof (induction rs arbitrary: a b)
  case Nil
  then show ?case by (simp add: run_part_text)
next
  case (Cons r rs)
  obtain c d where r: "r = (c, d)" by (cases r)
  from Cons.prems have ab: "a \<le> b" and bc: "b + 1 < c" and s: "sep_runs ((c, d) # rs)"
    by (simp_all add: r)
  have cd: "c \<le> d" using s by (cases rs) auto
  have u: "concat (map span (r # rs)) = c # ([c + 1..d] @ concat (map span rs))"
    using cd by (simp add: r span_def upto_rec1)
  have "format_loop a b [] (concat (map span (r # rs)))
      = format_loop c c [run_part a b] ([c + 1..d] @ concat (map span rs))"
    unfolding u using bc by simp
  also have "\<dots> = run_part a b # format_loop c c [] ([c + 1..d] @ concat (map span rs))"
    using format_loop_parts [of c c "[run_part a b]"] by simp
  also have "format_loop c c [] ([c + 1..d] @ concat (map span rs))
      = format_loop c d [] (concat (map span rs))"
    by (rule format_loop_span [OF cd])
  finally show ?case
    using Cons.IH [OF s] ab by (simp add: r run_part_text)
qed

lemma format_numbers_runs:
  assumes "sep_runs rs"
  shows "format_numbers (concat (map span rs)) = join (lit '', '') (map run_text_of rs)"
proof (cases rs)
  case Nil
  then show ?thesis by (simp add: format_numbers_def)
next
  case (Cons r rs')
  obtain a b where r: "r = (a, b)" by (cases r)
  have s: "sep_runs ((a, b) # rs')" using assms Cons r by simp
  have ab: "a \<le> b" using s by (cases rs') auto
  have u: "concat (map span rs) = a # ([a + 1..b] @ concat (map span rs'))"
    using ab by (simp add: Cons r span_def upto_rec1)
  have "format_numbers (concat (map span rs))
      = join (lit '', '') (format_loop a a [] ([a + 1..b] @ concat (map span rs')))"
    unfolding format_numbers_def sort_remdups_strict [OF sep_runs_sorted [OF assms]]
    unfolding u by simp
  also have "format_loop a a [] ([a + 1..b] @ concat (map span rs'))
      = format_loop a b [] (concat (map span rs'))"
    by (rule format_loop_span [OF ab])
  finally show ?thesis
    using format_loop_runs [OF s] by (simp add: Cons r)
qed

lemma runs_exist: "sorted_wrt (<) (ids::int list) \<Longrightarrow> \<exists>rs. sep_runs rs \<and> ids = concat (map span rs)"
proof (induction ids)
  case Nil
  have "sep_runs [] \<and> [] = concat (map span [])" by simp
  then show ?case by blast
next
  case (Cons x xs)
  then obtain rs where rs: "sep_runs rs" "xs = concat (map span rs)" by auto
  show ?case
  proof (cases rs)
    case Nil
    then have "sep_runs [(x, x)] \<and> x # xs = concat (map span [(x, x)])"
      using rs by (simp add: span_def)
    then show ?thesis by blast
  next
    case (Cons r rs')
    obtain c d where r: "r = (c, d)" by (cases r)
    have cd: "c \<le> d" using rs(1) Cons r by (cases rs') auto
    have "c \<in> set xs" using rs(2) Cons r cd by (simp add: span_def)
    then have xc: "x < c" using Cons.prems \<open>sorted_wrt (<) (x # xs)\<close> by auto
    show ?thesis
    proof (cases "c = x + 1")
      case True
      have "sep_runs ((x, d) # rs')" using rs(1) Cons r cd True by (cases rs') auto
      moreover have "x # xs = concat (map span ((x, d) # rs'))"
        using rs(2) Cons r cd True by (simp add: span_def upto_rec1)
      ultimately show ?thesis by blast
    next
      case False
      then have "sep_runs ((x, x) # (c, d) # rs')" using rs(1) Cons r xc by simp
      moreover have "x # xs = concat (map span ((x, x) # (c, d) # rs'))"
        using rs(2) Cons r by (simp add: span_def)
      ultimately show ?thesis by blast
    qed
  qed
qed

lemmas char_defs = lit_def is_digit_def is_space_def is_dash_def cite_char_def is_opener_def is_closer_def
lemmas num_defs = get_numbers_def number_match_def py_int_def Let_def

lemma digits_eval [simp]: "digits (numeral k) =
    (if (numeral k :: nat) < 10 then [48 + numeral k]
     else digits (numeral k div 10) @ [48 + numeral k mod 10])"
  by (subst digits.simps) simp

lemma digits_small [simp]: "digits 0 = [48]" "digits (Suc 0) = [49]"
  by (simp_all add: digits.simps)

lemma format_example: "format_numbers (get_numbers (lit ''1, 2, 3, 5'')) = lit ''1-3, 5''"
  by (simp add: char_defs num_defs findall_numbers.simps format_numbers_def run_part_def py_str_def)

lemma roundtrip_negative: "get_numbers (format_numbers [- 1]) = [1]"
  by (simp add: char_defs num_defs findall_numbers.simps format_numbers_def run_part_def py_str_def)

text \<open>
  C3 (amended). \<open>format_numbers\<close> prints every maximal run of consecutive integers by
  the rule of \<open>run_text_of\<close> (three or more as \<open>a-b\<close>, two as \<open>a,b\<close>, one as
  itself) and joins the runs with a comma and a space; every strictly increasing list is
  such a sequence of separated runs, so runs that are not contiguous are never merged.
  \<open>format_numbers(get_numbers("1, 2, 3, 5"))\<close> is \<open>"1-3, 5"\<close>. For every strictly
  increasing list of non-negative integers, \<open>get_numbers(format_numbers(ids))\<close> is
  \<open>sorted(ids)\<close>.
\<close>

theorem format_numbers_roundtrip:
  "(sep_runs rs \<longrightarrow>
      format_numbers (concat (map span rs)) = join (lit '', '') (map run_text_of rs))
   \<and> (sorted_wrt (<) ids \<longrightarrow> (\<exists>rs. sep_runs rs \<and> ids = concat (map span rs)))
   \<and> format_numbers (get_numbers (lit ''1, 2, 3, 5'')) = lit ''1-3, 5''
   \<and> (sorted_wrt (<) ids \<and> list_all (\<lambda>n. 0 \<le> n) ids \<longrightarrow>
        get_numbers (format_numbers ids) = sort ids)"
proof -
  have "sorted_wrt (<) ids \<and> list_all (\<lambda>n. 0 \<le> n) ids \<longrightarrow>
        get_numbers (format_numbers ids) = sort ids"
  proof
    assume a: "sorted_wrt (<) ids \<and> list_all (\<lambda>n. 0 \<le> n) ids"
    then have "sort ids = ids" by (simp add: strict_sorted_iff sorted_sort_id)
    with a show "get_numbers (format_numbers ids) = sort ids" by (simp add: roundtrip)
  qed
  then show ?thesis
    using format_numbers_runs [of rs] runs_exist [of ids] format_example by blast
qed

theorem format_numbers_roundtrip_witness:
  "sep_runs [(1, 3), (5, 5), (7, 8)]
   \<and> format_numbers [1, 2, 3, 5, 7, 8] = lit ''1-3, 5, 7,8''
   \<and> sorted_wrt (<) [1, 2, 3, 5, 7, 8 :: int]
   \<and> get_numbers (lit ''1-3, 5, 7,8'') = [1, 2, 3, 5, 7, 8]"
proof -
  have s: "sep_runs [(1, 3), (5, 5), (7, 8)]" by simp
  have c: "concat (map span [(1, 3), (5, 5), (7, 8)]) = [1, 2, 3, 5, 7, 8]"
    by (simp add: span_def upto_rec1)
  have j: "join (lit '', '') (map run_text_of [(1, 3), (5, 5), (7, 8)]) = lit ''1-3, 5, 7,8''"
    by (simp add: run_text_of_def py_str_def lit_def)
  have i: "sorted_wrt (<) [1, 2, 3, 5, 7, 8 :: int] \<and> list_all (\<lambda>n. 0 \<le> n) [1, 2, 3, 5, 7, 8 :: int]"
    by simp
  note t = format_numbers_roundtrip [of "[(1, 3), (5, 5), (7, 8)]" "[1, 2, 3, 5, 7, 8]"]
  have f: "format_numbers [1, 2, 3, 5, 7, 8] = lit ''1-3, 5, 7,8''"
    using t [THEN conjunct1] s unfolding c j by simp
  have g: "get_numbers (format_numbers [1, 2, 3, 5, 7, 8]) = sort [1, 2, 3, 5, 7, 8]"
    using t [THEN conjunct2, THEN conjunct2, THEN conjunct2] i by blast
  then have "get_numbers (lit ''1-3, 5, 7,8'') = [1, 2, 3, 5, 7, 8]"
    unfolding f by simp
  with s f i show ?thesis by simp
qed

text \<open>
  The claim as stated covers every list of integers, and fails on a negative one: the
  minus sign of \<open>str(-1)\<close> is read back as a separator.
\<close>

theorem format_numbers_roundtrip_counterexample:
  "sorted_wrt (<) [- 1 :: int]
   \<and> get_numbers (format_numbers [- 1]) = [1]
   \<and> get_numbers (format_numbers [- 1]) \<noteq> sort [- 1]"
  by (simp add: roundtrip_negative)

section \<open>The numeral checker\<close>

fun first_seen :: "'a list \<Rightarrow> 'a list" where
  "first_seen [] = []"
| "first_seen (x # xs) = x # filter (\<lambda>y. y \<noteq> x) (first_seen xs)"

lemma set_first_seen: "set (first_seen xs) = set xs"
  by (induction xs) auto

lemma distinct_first_seen: "distinct (first_seen xs)"
  by (induction xs) auto

lemma first_seen_append:
  "first_seen (xs @ ys) = first_seen xs @ filter (\<lambda>y. y \<notin> set xs) (first_seen ys)"
proof (induction xs)
  case Nil
  show ?case by simp
next
  case (Cons x xs)
  have "filter (\<lambda>y. y \<noteq> x) (filter (\<lambda>y. y \<notin> set xs) (first_seen ys))
      = filter (\<lambda>y. y \<notin> set (x # xs)) (first_seen ys)"
    by (simp add: conj_commute)
  with Cons show ?case by simp
qed

lemma note_seen_first_seen:
  "seen = set order \<Longrightarrow> note_seen ns (order, seen)
     = (order @ filter (\<lambda>n. n \<notin> set order) (first_seen ns), set order \<union> set ns)"
proof (induction ns arbitrary: order seen)
  case Nil
  then show ?case by simp
next
  case (Cons n ns)
  show ?case
  proof (cases "n \<in> set order")
    case True
    have "filter (\<lambda>y. y \<notin> set order) (filter (\<lambda>y. y \<noteq> n) (first_seen ns))
        = filter (\<lambda>y. y \<notin> set order) (first_seen ns)"
      using True by (auto intro: filter_cong simp: )
    with True Cons.IH [of seen order] Cons.prems show ?thesis by auto
  next
    case False
    have "filter (\<lambda>y. y \<notin> set (order @ [n])) (first_seen ns)
        = filter (\<lambda>y. y \<notin> set order) (filter (\<lambda>y. y \<noteq> n) (first_seen ns))"
      by (auto intro: filter_cong)
    with False Cons.IH [of "insert n seen" "order @ [n]"] Cons.prems show ?thesis by auto
  qed
qed

definition scan_inv :: "cite_state \<Rightarrow> bool" where
  "scan_inv st = (case st of (all_cited, order, seen) \<Rightarrow>
      order = first_seen all_cited \<and> seen = set all_cited)"

lemma record_numbers_inv: "scan_inv st \<Longrightarrow> scan_inv (record_numbers nums st)"
proof -
  assume a: "scan_inv st"
  obtain al order seen where st: "st = (al, order, seen)" by (cases st) auto
  from a st have o: "order = first_seen al" and s: "seen = set order"
    by (simp_all add: scan_inv_def set_first_seen)
  show ?thesis
    unfolding st
    by (simp add: note_seen_first_seen [OF s] scan_inv_def)
       (simp add: o first_seen_append set_first_seen)
qed

lemma fold_record_inv:
  "scan_inv st \<Longrightarrow> scan_inv (fold (\<lambda>m. record_numbers (get_numbers m)) ms st)"
  by (induction ms arbitrary: st) (simp_all add: record_numbers_inv del: record_numbers.simps)

lemma scan_runs_inv: "scan_inv st \<Longrightarrow> scan_inv (scan_runs rs g st)"
proof (induction rs arbitrary: g st)
  case Nil
  then show ?case by (auto intro: record_numbers_inv)
next
  case (Cons r rs)
  show ?case
  proof (cases "is_citation_run r")
    case True
    then show ?thesis using Cons by simp
  next
    case False
    let ?st1 = "if g \<noteq> [] then record_numbers (get_numbers (concat (map run_text g))) st else st"
    have "scan_inv ?st1" using Cons.prems by (auto intro: record_numbers_inv)
    then have "scan_inv (fold (\<lambda>m. record_numbers (get_numbers m)) (caret_findall (run_text r)) ?st1)"
      by (rule fold_record_inv)
    from Cons.IH [OF this] False show ?thesis by (simp add: Let_def)
  qed
qed

lemma fold_scan_inv:
  "scan_inv st \<Longrightarrow> scan_inv (fold (\<lambda>para. scan_runs (runs para) []) ps st)"
  by (induction ps arbitrary: st) (simp_all add: scan_runs_inv)

lemma appearance_order_first_seen:
  "snd (get_citations_in_text doc) = first_seen (fst (get_citations_in_text doc))"
proof -
  have i: "scan_inv ([], [], {})" by (simp add: scan_inv_def)
  obtain al order seen where
    f: "fold (\<lambda>para. scan_runs (runs para) []) (iter_document_paragraphs doc) ([], [], {}) = (al, order, seen)"
    by (metis prod_cases3)
  from fold_scan_inv [OF i, of "iter_document_paragraphs doc"] f
  have "order = first_seen al" by (simp add: scan_inv_def)
  then show ?thesis by (simp add: get_citations_in_text_def f)
qed

lemma dict_set_fresh: "k \<notin> fst ` set m \<Longrightarrow> dict_set k v m = m @ [(k, v)]"
  by (induction m) auto

lemma build_mapping_zip:
  "distinct (map fst m @ order) \<Longrightarrow>
   build_mapping order k m = m @ zip order [k..k + int (length order) - 1]"
proof (induction order arbitrary: k m)
  case Nil
  show ?case by simp
next
  case (Cons x order)
  have fresh: "x \<notin> fst ` set m" using Cons.prems by auto
  have d: "distinct (map fst (m @ [(x, k)]) @ order)" using Cons.prems by auto
  have u: "[k..k + int (length (x # order)) - 1] = k # [k + 1..k + 1 + int (length order) - 1]"
    by (simp add: upto_rec1)
  show ?case
    using Cons.IH [OF d, of "k + 1"] unfolding u
    by (simp add: dict_set_fresh [OF fresh])
qed


definition L0 :: library where
  "L0 = \<lparr>ratio = (\<lambda>a b. if a = b then 1 else 0), quick_ratio = (\<lambda>a b. 1),
          real_quick_ratio = (\<lambda>a b. 1), round1 = (\<lambda>x. x)\<rparr>"

definition text_run :: "string \<Rightarrow> run" where
  "text_run s = \<lparr>run_style = None, superscript = False, run_text = lit s\<rparr>"

definition cite_run :: "string \<Rightarrow> run" where
  "cite_run s = \<lparr>run_style = Some (lit ''cite_bib''), superscript = True, run_text = lit s\<rparr>"

definition ref_entry :: "string \<Rightarrow> para" where
  "ref_entry s = \<lparr>para_style = Some (lit ''REF-N''), runs = [text_run s]\<rparr>"

definition body_para :: "run list \<Rightarrow> para" where
  "body_para rs = \<lparr>para_style = Some (lit ''Normal''), runs = rs\<rparr>"

definition doc_unused :: document where
  "doc_unused = \<lparr>styles = [lit ''Normal'', lit ''REF-N''],
     body = [Para (body_para [text_run ''See ^1^ here.'']),
             Para (ref_entry ''1. First work.''), Para (ref_entry ''2. Second work.''), Other]\<rparr>"

definition doc_gate :: document where
  "doc_gate = \<lparr>styles = [lit ''Normal'', lit ''REF-N''],
     body = [Para (body_para [text_run ''As shown'', cite_run ''5, 2'', text_run '' and ^2, 9^.'']),
             Para (ref_entry ''2. Second.''), Para (ref_entry ''5. Fifth.''),
             Para (ref_entry ''9. Ninth.''), Other]\<rparr>"






lemmas doc_defs = body_para_def text_run_def cite_run_def ref_entry_def
  iter_document_paragraphs_def is_citation_run_def strip_def para_text_def


fun gaps_from :: "nat \<Rightarrow> int list \<Rightarrow> issue list" where
  "gaps_from k [] = []"
| "gaps_from k (n # ns) =
     (if n \<noteq> int (k + 1) then [\<lparr>position = k + 1, current = n, expected = k + 1\<rparr>] else [])
     @ gaps_from (k + 1) ns"

lemma get_validation_stats_code:
  "get_validation_stats L doc =
     (let ref_objects = ref_objects_from 0 (body doc);
          ids = map ref_id ref_objects;
          all_cited = fst (get_citations_in_text doc);
          missing = sort (remdups (filter (\<lambda>n. n \<notin> set ids) all_cited));
          unused = sort (remdups (filter (\<lambda>n. n \<notin> set all_cited) ids));
          duplicates = num_find_duplicates L ref_objects;
          issues = fst (sequence_walk all_cited ([], [], 0))
      in \<lparr>total_references = length (remdups ids),
          total_citations = length all_cited,
          missing_references = missing,
          unused_references = unused,
          duplicate_references = duplicates,
          sequence_issues = issues,
          is_perfect = (missing = [] \<and> unused = [] \<and> issues = [] \<and> duplicates = [])\<rparr>)"
proof -
  have d: "\<And>xs ys :: int list. sorted_list_of_set (set xs - set ys)
      = sort (remdups (filter (\<lambda>n. n \<notin> set ys) xs))"
  proof -
    fix xs ys :: "int list"
    have "set xs - set ys = set (filter (\<lambda>n. n \<notin> set ys) xs)" by auto
    then show "sorted_list_of_set (set xs - set ys) = sort (remdups (filter (\<lambda>n. n \<notin> set ys) xs))"
      by (simp only: sorted_list_of_set_sort_remdups)
  qed
  have c: "\<And>xs :: int list. card (set xs) = length (remdups xs)"
    by (simp add: length_remdups_card_conv)
  show ?thesis
    unfolding get_validation_stats_def get_references_in_bibliography_def Let_def prod.case d c
    by (rule refl)
qed

lemma sequence_walk_gaps:
  "fst (sequence_walk ns (issues, seen, pm))
     = issues @ gaps_from (length seen) (filter (\<lambda>n. n \<notin> set seen) (first_seen ns))"
proof (induction ns arbitrary: issues seen pm)
  case Nil
  show ?case by simp
next
  case (Cons n ns)
  show ?case
  proof (cases "n \<in> set seen")
    case True
    have "filter (\<lambda>y. y \<notin> set seen) (filter (\<lambda>y. y \<noteq> n) (first_seen ns))
        = filter (\<lambda>y. y \<notin> set seen) (first_seen ns)"
      using True by (auto intro: filter_cong)
    with True Cons.IH [of issues seen pm] show ?thesis by simp
  next
    case False
    have f: "filter (\<lambda>y. y \<notin> set (seen @ [n])) (first_seen ns)
        = filter (\<lambda>y. y \<notin> set seen) (filter (\<lambda>y. y \<noteq> n) (first_seen ns))"
      by (auto intro: filter_cong)
    show ?thesis
    proof (cases "n = int (length seen + 1)")
      case True
      then show ?thesis
        using False Cons.IH [of issues "seen @ [n]" "max pm n"] unfolding f by simp
    next
      case neq: False
      then show ?thesis
        using False
          Cons.IH [of "issues @ [\<lparr>position = length seen + 1, current = n, expected = length seen + 1\<rparr>]"
                      "seen @ [n]" "max pm n"]
        unfolding f by simp
    qed
  qed
qed

lemma stats_fields:
  "set (missing_references (get_validation_stats L doc))
      = set (fst (get_citations_in_text doc)) - fst (get_references_in_bibliography doc)
   \<and> set (unused_references (get_validation_stats L doc))
      = fst (get_references_in_bibliography doc) - set (fst (get_citations_in_text doc))
   \<and> sequence_issues (get_validation_stats L doc)
      = gaps_from 0 (first_seen (fst (get_citations_in_text doc)))
   \<and> is_perfect (get_validation_stats L doc)
      = (missing_references (get_validation_stats L doc) = []
         \<and> unused_references (get_validation_stats L doc) = []
         \<and> sequence_issues (get_validation_stats L doc) = []
         \<and> duplicate_references (get_validation_stats L doc) = [])"
proof -
  have f: "finite (ref_id ` set (ref_objects_from 0 (body doc)))"
    by simp
  have w: "fst (sequence_walk (fst (get_citations_in_text doc)) ([], [], 0))
      = gaps_from 0 (first_seen (fst (get_citations_in_text doc)))"
    using sequence_walk_gaps [of "fst (get_citations_in_text doc)" "[]" "[]" 0] by simp
  show ?thesis
    using f by (simp add: get_validation_stats_def get_references_in_bibliography_def Let_def w)
qed

text \<open>
  C8. Pass 2 computes \<open>missing\<close> as the distinct cited ids without the bibliography ids
  and \<open>unused\<close> as the bibliography ids without the cited ids; the sequence issues are
  the gaps \<open>{position, current, expected}\<close> of the walk over the ids in order of first
  appearance, one for each id that differs from the count of distinct ids seen so far
  plus one; \<open>is_perfect\<close> holds exactly when the four lists are empty.
\<close>

theorem validation_stats_spec:
  "set (missing_references (get_validation_stats L doc))
      = set (fst (get_citations_in_text doc)) - fst (get_references_in_bibliography doc)
   \<and> set (unused_references (get_validation_stats L doc))
      = fst (get_references_in_bibliography doc) - set (fst (get_citations_in_text doc))
   \<and> sequence_issues (get_validation_stats L doc)
      = gaps_from 0 (first_seen (fst (get_citations_in_text doc)))
   \<and> is_perfect (get_validation_stats L doc)
      = (missing_references (get_validation_stats L doc) = []
         \<and> unused_references (get_validation_stats L doc) = []
         \<and> sequence_issues (get_validation_stats L doc) = []
         \<and> duplicate_references (get_validation_stats L doc) = [])"
  by (rule stats_fields)

text \<open>
  C1. When some bibliography id is never cited, \<open>process_document\<close> aborts before
  renumbering: the mapping is empty and the document it returns is the document it was
  given, with no paragraph rewritten, moved or removed.
\<close>

theorem process_document_unused_abort:
  assumes "fst (get_references_in_bibliography doc) - set (fst (get_citations_in_text doc)) \<noteq> {}"
  shows "process_document L doc =
           (doc, get_validation_stats L doc, get_validation_stats L doc, [],
            lit ''Aborted: Document validation failed due to unused references.'')"
proof -
  have "set (unused_references (get_validation_stats L doc)) \<noteq> {}"
    using assms stats_fields [of L doc] by simp
  then have "unused_references (get_validation_stats L doc) \<noteq> []" by auto
  then show ?thesis by (simp add: process_document_def Let_def)
qed


definition no_bibliography :: "document \<Rightarrow> bool" where
  "no_bibliography doc =
     list_all (\<lambda>b. case b of Para p \<Rightarrow> para_style p \<noteq> Some (lit ''REF-N'') | _ \<Rightarrow> True) (body doc)"

lemma no_ref_objects:
  "list_all (\<lambda>b. case b of Para p \<Rightarrow> para_style p \<noteq> Some (lit ''REF-N'') | _ \<Rightarrow> True) bs
   \<Longrightarrow> ref_objects_from i bs = []"
proof (induction bs arbitrary: i)
  case Nil
  show ?case by simp
next
  case (Cons b bs)
  then show ?case by (cases b) (simp_all add: para_ref_def)
qed

text \<open>
  What \<open>process_document\<close> returns for a document with no bibliography paragraph, when it
  returns: the unchanged document and the empty mapping.
\<close>

lemma no_bibliography_result:
  assumes "no_bibliography doc"
  shows "process_document L doc =
           (doc, get_validation_stats L doc, get_validation_stats L doc, [],
            if fst (get_citations_in_text doc) = [] then lit ''Validation completed.''
            else lit ''Aborted: Missing references detected.'')"
proof -
  have r: "ref_objects_from 0 (body doc) = []"
    using assms unfolding no_bibliography_def by (rule no_ref_objects)
  have b: "fst (get_references_in_bibliography doc) = {}"
    by (simp add: get_references_in_bibliography_def r)
  have spec: "set (missing_references (get_validation_stats L doc)) = set (fst (get_citations_in_text doc))"
    "set (unused_references (get_validation_stats L doc)) = {}"
    using stats_fields [of L doc] by (simp_all add: b)
  have u: "unused_references (get_validation_stats L doc) = []"
    using spec(2) by simp
  show ?thesis
  proof (cases "fst (get_citations_in_text doc) = []")
    case True
    then have "is_perfect (get_validation_stats L doc)"
      by (simp add: get_validation_stats_code r num_find_duplicates_def num_processed_refs_def)
    with True u show ?thesis by (simp add: process_document_def Let_def)
  next
    case False
    then have m: "missing_references (get_validation_stats L doc) \<noteq> []"
      using spec(1) by auto
    then have "\<not> is_perfect (get_validation_stats L doc)"
      using stats_fields [of L doc] by simp
    with False u m show ?thesis by (simp add: process_document_def Let_def)
  qed
qed

lemma zip_mapping_get:
  assumes "distinct xs" "length xs = length ys" "i < length xs"
  shows "mapping_get (zip xs ys) (xs ! i) = ys ! i"
proof -
  have "map_of (zip xs ys) (xs ! i) = Some (ys ! i)"
    using assms by (simp add: map_of_zip_nth)
  then show ?thesis by (simp add: mapping_get_def)
qed

lemma bij_zip:
  assumes "distinct xs" "distinct ys" "length xs = length ys"
  shows "bij_betw (mapping_get (zip xs ys)) (set xs) (set ys)"
  unfolding bij_betw_def
proof
  show "inj_on (mapping_get (zip xs ys)) (set xs)"
  proof (rule inj_onI)
    fix x y
    assume "x \<in> set xs" "y \<in> set xs" and e: "mapping_get (zip xs ys) x = mapping_get (zip xs ys) y"
    then obtain i j where i: "i < length xs" "x = xs ! i" and j: "j < length xs" "y = xs ! j"
      by (auto simp: in_set_conv_nth)
    from e have "ys ! i = ys ! j"
      using zip_mapping_get [OF assms(1,3)] i j by simp
    then have "i = j"
      using assms(2,3) i j by (simp add: nth_eq_iff_index_eq)
    then show "x = y" using i j by simp
  qed
next
  show "mapping_get (zip xs ys) ` set xs = set ys"
  proof (rule set_eqI)
    fix v
    show "v \<in> mapping_get (zip xs ys) ` set xs \<longleftrightarrow> v \<in> set ys"
    proof
      assume "v \<in> mapping_get (zip xs ys) ` set xs"
      then obtain i where "i < length xs" "v = mapping_get (zip xs ys) (xs ! i)"
        by (auto simp: in_set_conv_nth)
      then show "v \<in> set ys"
        using zip_mapping_get [OF assms(1,3)] assms(3) by simp
    next
      assume "v \<in> set ys"
      then obtain i where i: "i < length ys" "v = ys ! i"
        by (auto simp: in_set_conv_nth)
      then have "v = mapping_get (zip xs ys) (xs ! i)"
        using zip_mapping_get [OF assms(1,3), of i] assms(3) by simp
      then show "v \<in> mapping_get (zip xs ys) ` set xs"
        using i assms(3) by simp
    qed
  qed
qed

text \<open>
  C2. When the safety gate passes (nothing unused, nothing missing, not perfect), the
  mapping that \<open>process_document\<close> returns pairs the distinct cited numbers, in order of
  first appearance, with \<open>1, 2, \<dots>, N\<close>; it is a bijection from the set of cited
  numbers onto \<open>{1..N}\<close>; the cited numbers \<open>[5, 2, 2, 9]\<close> give
  \<open>{5: 1, 2: 2, 9: 3}\<close>.
\<close>

theorem renumber_mapping_bijection:
  assumes "unused_references (get_validation_stats L doc) = []"
    and "\<not> is_perfect (get_validation_stats L doc)"
    and "missing_references (get_validation_stats L doc) = []"
  shows "fst (snd (snd (snd (process_document L doc))))
           = zip (first_seen (fst (get_citations_in_text doc)))
                 [1..int (card (set (fst (get_citations_in_text doc))))]
       \<and> bij_betw (mapping_get (fst (snd (snd (snd (process_document L doc))))))
           (set (fst (get_citations_in_text doc)))
           {1..int (card (set (fst (get_citations_in_text doc))))}
       \<and> (fst (get_citations_in_text doc) = [5, 2, 2, 9] \<longrightarrow>
            fst (snd (snd (snd (process_document L doc)))) = [(5, 1), (2, 2), (9, 3)])"
proof -
  let ?all = "fst (get_citations_in_text doc)"
  let ?m = "fst (snd (snd (snd (process_document L doc))))"
  have n: "card (set ?all) = length (first_seen ?all)"
    using distinct_card [OF distinct_first_seen, of ?all] by (simp add: set_first_seen)
  have "?m = build_mapping (snd (get_citations_in_text doc)) 1 []"
    using assms by (simp add: process_document_def renumber_def Let_def split: prod.splits)
  also have "\<dots> = zip (first_seen ?all) [1..1 + int (length (first_seen ?all)) - 1]"
    using build_mapping_zip [of "[]" "first_seen ?all" 1]
    by (simp add: appearance_order_first_seen distinct_first_seen)
  finally have m: "?m = zip (first_seen ?all) [1..int (card (set ?all))]"
    by (simp add: n)
  have "bij_betw (mapping_get (zip (first_seen ?all) [1..int (card (set ?all))]))
          (set (first_seen ?all)) (set [1..int (card (set ?all))])"
    by (rule bij_zip) (simp_all add: distinct_first_seen n)
  then have b: "bij_betw (mapping_get ?m) (set ?all) {1..int (card (set ?all))}"
    by (simp add: m set_first_seen)
  have "?all = [5, 2, 2, 9] \<longrightarrow> ?m = [(5, 1), (2, 2), (9, 3)]"
  proof
    assume a: "?all = [5, 2, 2, 9]"
    have "card (set [5, 2, 2, 9 :: int]) = 3" by simp
    then show "?m = [(5, 1), (2, 2), (9, 3)]"
      unfolding m a by (simp add: upto_rec1)
  qed
  with m b show ?thesis by blast
qed


definition doc_nobib :: document where
  "doc_nobib = \<lparr>styles = [lit ''Normal''],
     body = [Para (body_para [text_run ''See ^1^ here.'']), Other]\<rparr>"

lemmas stats_defs = get_validation_stats_code get_citations_in_text_def
  num_find_duplicates_def num_processed_refs_def clean_text_def length_ratio_def para_ref_def leading_int_def L0_def

lemma stats_doc_unused:
  "get_validation_stats L0 doc_unused =
     \<lparr>total_references = 2, total_citations = 1, missing_references = [],
      unused_references = [2], duplicate_references = [], sequence_issues = [],
      is_perfect = False\<rparr>"
  by (simp add: doc_unused_def stats_defs doc_defs char_defs num_defs findall_numbers.simps)

lemma stats_doc_gate:
  "get_validation_stats L0 doc_gate =
     \<lparr>total_references = 3, total_citations = 4, missing_references = [],
      unused_references = [], duplicate_references = [],
      sequence_issues = [\<lparr>position = 1, current = 5, expected = 1\<rparr>,
                         \<lparr>position = 3, current = 9, expected = 3\<rparr>],
      is_perfect = False\<rparr>"
  by (simp add: doc_gate_def stats_defs doc_defs char_defs num_defs findall_numbers.simps)

theorem process_document_unused_abort_witness:
  "unused_references (get_validation_stats L0 doc_unused) = [2]
   \<and> fst (process_document L0 doc_unused) = doc_unused
   \<and> fst (snd (snd (snd (process_document L0 doc_unused)))) = []"
proof -
  have "set (unused_references (get_validation_stats L0 doc_unused)) \<noteq> {}"
    by (simp add: stats_doc_unused)
  then have h: "fst (get_references_in_bibliography doc_unused)
      - set (fst (get_citations_in_text doc_unused)) \<noteq> {}"
    using stats_fields [of L0 doc_unused] by simp
  show ?thesis
    using process_document_unused_abort [OF h, of L0] by (simp add: stats_doc_unused)
qed

theorem renumber_mapping_bijection_witness:
  "fst (get_citations_in_text doc_gate) = [5, 2, 2, 9]
   \<and> fst (snd (snd (snd (process_document L0 doc_gate)))) = [(5, 1), (2, 2), (9, 3)]
   \<and> bij_betw (mapping_get [(5, 1), (2, 2), (9, 3)]) {5, 2, 9} {1..3}"
proof -
  have c: "fst (get_citations_in_text doc_gate) = [5, 2, 2, 9]"
    by (simp add: get_citations_in_text_def doc_gate_def doc_defs char_defs num_defs findall_numbers.simps)
  have h: "unused_references (get_validation_stats L0 doc_gate) = []"
    "\<not> is_perfect (get_validation_stats L0 doc_gate)"
    "missing_references (get_validation_stats L0 doc_gate) = []"
    by (simp_all add: stats_doc_gate)
  have k: "int (card (set [5, 2, 2, 9 :: int])) = 3" by simp
  note r = renumber_mapping_bijection [OF h, unfolded c k]
  have m: "fst (snd (snd (snd (process_document L0 doc_gate)))) = [(5, 1), (2, 2), (9, 3)]"
    using r [THEN conjunct2, THEN conjunct2] by simp
  have b: "bij_betw (mapping_get [(5, 1), (2, 2), (9, 3)]) (set [5, 2, 2, 9]) {1..3}"
    using r [THEN conjunct2, THEN conjunct1] unfolding m .
  from b c m show ?thesis by simp
qed

theorem validation_stats_spec_witness:
  "missing_references (get_validation_stats L0 doc_gate) = []
   \<and> unused_references (get_validation_stats L0 doc_unused) = [2]
   \<and> sequence_issues (get_validation_stats L0 doc_gate)
      = gaps_from 0 (first_seen [5, 2, 2, 9])
   \<and> is_perfect (get_validation_stats L0 doc_gate) = False"
proof -
  have c: "fst (get_citations_in_text doc_gate) = [5, 2, 2, 9]"
    by (simp add: get_citations_in_text_def doc_gate_def doc_defs char_defs num_defs findall_numbers.simps)
  show ?thesis
    using validation_stats_spec [of L0 doc_gate] unfolding c
    by (simp add: stats_doc_gate stats_doc_unused)
qed

text \<open>The checked functions return the values of the functions above, when they return.\<close>

lemma extend_numbers_returns:
  "extend_numbers ms nums = Inr r \<Longrightarrow> r = nums @ concat (map numbers_of_match ms)"
proof (induction ms arbitrary: nums)
  case Nil
  then show ?case by simp
next
  case (Cons m ms)
  obtain start e single where m: "m = (start, e, single)" by (cases m)
  show ?case
    using Cons.prems unfolding m
    by (auto simp: Let_def split: if_splits dest!: Cons.IH)
qed

lemma get_numbers_checked_returns:
  "get_numbers_checked t = Inr r \<Longrightarrow> r = get_numbers t"
  using extend_numbers_returns [of "findall_numbers t" "[]" r]
  by (simp add: get_numbers_checked_def get_numbers_def)

lemma record_checked_returns:
  "record_checked t st = Inr st' \<Longrightarrow> st' = record_numbers (get_numbers t) st"
  unfolding record_checked_def
  by (cases "get_numbers_checked t") (auto dest: get_numbers_checked_returns)

lemma fold_checked_returns:
  assumes "\<And>x s s'. f x s = Inr s' \<Longrightarrow> s' = g x s"
  shows "fold_checked f xs st = Inr st' \<Longrightarrow> st' = fold g xs st"
proof (induction xs arbitrary: st)
  case Nil
  then show ?case by simp
next
  case (Cons x xs)
  show ?case
  proof (cases "f x st")
    case (Inl e)
    then show ?thesis using Cons.prems by simp
  next
    case (Inr st1)
    then have "fold_checked f xs st1 = Inr st'" using Cons.prems by simp
    then have "st' = fold g xs st1" by (rule Cons.IH)
    moreover have "st1 = g x st" using Inr by (rule assms)
    ultimately show ?thesis by simp
  qed
qed

lemma scan_runs_checked_returns:
  "scan_runs_checked rs grp st = Inr st' \<Longrightarrow> st' = scan_runs rs grp st"
proof (induction rs arbitrary: grp st)
  case Nil
  then show ?case by (auto split: if_splits dest: record_checked_returns)
next
  case (Cons r rs)
  show ?case
  proof (cases "is_citation_run r")
    case True
    then show ?thesis using Cons.prems Cons.IH by simp
  next
    case False
    let ?first = "if grp \<noteq> [] then record_checked (concat (map run_text grp)) st else Inr st"
    obtain st1 where f: "?first = Inr st1"
      using Cons.prems False by (cases ?first) simp_all
    obtain st2 where c: "fold_checked record_checked (caret_findall (run_text r)) st1 = Inr st2"
      using Cons.prems False f
      by (cases "fold_checked record_checked (caret_findall (run_text r)) st1") simp_all
    have l: "scan_runs_checked rs [] st2 = Inr st'"
      using Cons.prems False f c by simp
    have e1: "st1 = (if grp \<noteq> [] then record_numbers (get_numbers (concat (map run_text grp))) st else st)"
      using f by (auto split: if_splits dest: record_checked_returns)
    have e2: "st2 = fold (\<lambda>m. record_numbers (get_numbers m)) (caret_findall (run_text r)) st1"
      using c by (rule fold_checked_returns [rotated]) (rule record_checked_returns)
    have "st' = scan_runs rs [] st2" using l by (rule Cons.IH)
    then show ?thesis using False e1 e2 by (simp add: Let_def)
  qed
qed

lemma get_citations_in_text_checked_returns:
  "get_citations_in_text_checked doc = Inr r \<Longrightarrow> r = get_citations_in_text doc"
proof -
  assume a: "get_citations_in_text_checked doc = Inr r"
  let ?f = "fold_checked (\<lambda>para. scan_runs_checked (runs para) []) (iter_document_paragraphs doc) ([], [], {})"
  obtain st where st: "?f = Inr st"
    using a by (cases ?f) (simp_all add: get_citations_in_text_checked_def)
  have e: "fold (\<lambda>para. scan_runs (runs para) []) (iter_document_paragraphs doc) ([], [], {}) = st"
    using st by (rule fold_checked_returns [rotated, symmetric]) (rule scan_runs_checked_returns)
  obtain all_cited order seen where t: "st = (all_cited, order, seen)" by (cases st)
  have "r = (all_cited, order)"
    using a by (simp add: get_citations_in_text_checked_def st t)
  then show ?thesis
    by (simp add: get_citations_in_text_def e t)
qed

text \<open>A document without bibliography that cites the range from 1 to \<open>10 ^ 20 - 1\<close>.\<close>

definition doc_overflow :: document where
  "doc_overflow = \<lparr>styles = [lit ''Normal''],
     body = [Para (body_para [text_run ''See ^1-99999999999999999999^ here.''])]\<rparr>"

text \<open>
  C9. The source does not keep the claim. For a document with no bibliography paragraph,
  \<open>process_document\<close> returns the unchanged document and the empty mapping whenever it
  returns; but it does not return for every such document: a citation of a range of more
  than \<open>sys.maxsize\<close> numbers, as in \<open>doc_overflow\<close>, raises \<open>OverflowError\<close> in
  \<open>get_numbers\<close>, and the exception leaves \<open>process_document\<close>.
\<close>

theorem no_bibliography_overflow:
  "(no_bibliography doc \<and> process_no_bibliography L doc = Inr r
      \<longrightarrow> r = process_document L doc \<and> fst r = doc \<and> fst (snd (snd (snd r))) = [])
   \<and> no_bibliography doc_overflow
   \<and> get_numbers_checked (lit ''1-99999999999999999999'') = Inl OverflowError
   \<and> process_no_bibliography L doc_overflow = Inl OverflowError"
proof (intro conjI impI)
  assume a: "no_bibliography doc \<and> process_no_bibliography L doc = Inr r"
  then show r: "r = process_document L doc"
    by (cases "get_citations_in_text_checked doc") (auto simp: process_no_bibliography_def)
  show "fst r = doc" "fst (snd (snd (snd r))) = []"
    using a no_bibliography_result [of doc L] unfolding r by simp_all
next
  show "no_bibliography doc_overflow"
    by (simp add: no_bibliography_def doc_overflow_def doc_defs char_defs)
next
  show n: "get_numbers_checked (lit ''1-99999999999999999999'') = Inl OverflowError"
    by (simp add: get_numbers_checked_def maxsize_def char_defs num_defs findall_numbers.simps)
  have c: "caret_findall (lit ''See ^1-99999999999999999999^ here.'') = [lit ''1-99999999999999999999'']"
    by (simp add: char_defs)
  have "get_citations_in_text_checked doc_overflow = Inl OverflowError"
    by (simp add: get_citations_in_text_checked_def iter_document_paragraphs_def doc_overflow_def
        body_para_def text_run_def is_citation_run_def c record_checked_def n)
  then show "process_no_bibliography L doc_overflow = Inl OverflowError"
    by (simp add: process_no_bibliography_def)
qed

theorem no_bibliography_overflow_witness:
  "no_bibliography doc_nobib
   \<and> fst (get_citations_in_text doc_nobib) = [1]
   \<and> process_no_bibliography L0 doc_nobib =
       Inr (doc_nobib, get_validation_stats L0 doc_nobib, get_validation_stats L0 doc_nobib, [],
            lit ''Aborted: Missing references detected.'')"
proof -
  have n: "no_bibliography doc_nobib"
    by (simp add: no_bibliography_def doc_nobib_def doc_defs char_defs)
  have c: "fst (get_citations_in_text doc_nobib) = [1]"
    by (simp add: get_citations_in_text_def doc_nobib_def doc_defs char_defs num_defs findall_numbers.simps)
  have g: "get_numbers_checked (lit ''1'') = Inr [1]"
    by (simp add: get_numbers_checked_def maxsize_def char_defs num_defs findall_numbers.simps)
  have f: "caret_findall (lit ''See ^1^ here.'') = [lit ''1'']"
    by (simp add: char_defs)
  have k: "get_citations_in_text_checked doc_nobib = Inr ([1], [1])"
    by (simp add: get_citations_in_text_checked_def iter_document_paragraphs_def doc_nobib_def
        body_para_def text_run_def is_citation_run_def f record_checked_def g)
  have p: "process_no_bibliography L0 doc_nobib = Inr (process_document L0 doc_nobib)"
    by (simp add: process_no_bibliography_def k)
  have "process_document L0 doc_nobib =
       (doc_nobib, get_validation_stats L0 doc_nobib, get_validation_stats L0 doc_nobib, [],
        lit ''Aborted: Missing references detected.'')"
    using no_bibliography_result [OF n, of L0] c by simp
  with n c p no_bibliography_overflow [of doc_nobib L0 "process_document L0 doc_nobib"]
  show ?thesis by simp
qed

section \<open>Name-year citations (ReferenceAPAValidation.py)\<close>

subsection \<open>Text helpers\<close>

definition is_upper :: "nat \<Rightarrow> bool" where
  "is_upper c = (65 \<le> c \<and> c \<le> 90)"

definition is_lower :: "nat \<Rightarrow> bool" where
  "is_lower c = (97 \<le> c \<and> c \<le> 122)"

text \<open>
  The patterns of this module are \<open>str\<close> patterns, so \<^verbatim>\<open>\w\<close> is Unicode aware: a code
  point is a word character when \<open>str.isalnum\<close> holds of it or it is the underscore.
  Likewise \<open>str.lower\<close> follows the Unicode case mapping, which is not a map over the
  characters (it can change the length of the text, and depends on the context for the
  final sigma). Below 128 both are known; beyond, they are the Unicode tables of the
  interpreter, a parameter of the model: \<open>alnum\<close> is \<open>str.isalnum\<close> on one code point,
  \<open>lower_text\<close> is \<open>str.lower\<close> on a text.
\<close>

record unicode =
  alnum :: "nat \<Rightarrow> bool"
  lower_text :: "pystr \<Rightarrow> pystr"

definition is_word :: "unicode \<Rightarrow> nat \<Rightarrow> bool" where
  "is_word U c =
     (if c < 128 then is_upper c \<or> is_lower c \<or> is_digit c \<or> c = 95 else alnum U c)"

text \<open>\<open>str.lower\<close> on a text of ASCII characters.\<close>

definition lower :: "pystr \<Rightarrow> pystr" where
  "lower s = map (\<lambda>c. if is_upper c then c + 32 else c) s"

text \<open>\<open>str.lower\<close> on any text.\<close>

definition str_lower :: "unicode \<Rightarrow> pystr \<Rightarrow> pystr" where
  "str_lower U s = (if list_all (\<lambda>c. c < 128) s then lower s else lower_text U s)"

text \<open>
  \<open>c\<close> is the letter \<open>l\<close> in either case (the patterns with \<open>re.IGNORECASE\<close>; their
  letters are \<open>a\<close>, \<open>n\<close>, \<open>d\<close>, \<open>e\<close>, \<open>t\<close> and \<open>l\<close>, which no character outside
  ASCII matches).
\<close>

definition letter :: "nat \<Rightarrow> nat \<Rightarrow> bool" where
  "letter l c = (c = l \<or> c + 32 = l)"

definition starts_with :: "pystr \<Rightarrow> pystr \<Rightarrow> bool" where
  "starts_with p s = (take (length p) s = p)"

text \<open>\<open>sub in s\<close>.\<close>

fun contains :: "pystr \<Rightarrow> pystr \<Rightarrow> bool" where
  "contains sub [] = (sub = [])"
| "contains sub (c # cs) = (starts_with sub (c # cs) \<or> contains sub cs)"

text \<open>\<open>s.split(sep)\<close> for a separator of one character.\<close>

fun split_on :: "nat \<Rightarrow> pystr \<Rightarrow> pystr list" where
  "split_on sep [] = [[]]"
| "split_on sep (c # cs) =
     (if c = sep then [] # split_on sep cs
      else (case split_on sep cs of [] \<Rightarrow> [[c]] | p # ps \<Rightarrow> (c # p) # ps))"

text \<open>\<open>s.split(sep)[0]\<close>: the text before the first separator.\<close>

definition first_field :: "nat \<Rightarrow> pystr \<Rightarrow> pystr" where
  "first_field sep s = takeWhile (\<lambda>c. c \<noteq> sep) s"

text \<open>\<open>s.split()[0]\<close>; \<open>None\<close> when \<open>s.split()\<close> is empty (the source raises IndexError).\<close>

definition first_word :: "pystr \<Rightarrow> pystr option" where
  "first_word s =
     (let w = takeWhile (\<lambda>c. \<not> is_space c) (dropWhile is_space s)
      in if w = [] then None else Some w)"

text \<open>\<^verbatim>\<open>re.sub(r'\s+', ' ', s)\<close>.\<close>

fun collapse_spaces :: "pystr \<Rightarrow> pystr" where
  "collapse_spaces [] = []"
| "collapse_spaces (c # cs) =
     (if is_space c then
        (case cs of
           [] \<Rightarrow> [32]
         | d # _ \<Rightarrow> if is_space d then collapse_spaces cs else 32 # collapse_spaces cs)
      else c # collapse_spaces cs)"

text \<open>The characters that \<^verbatim>\<open>re.sub(r'[^\w\s&]', '', author_part)\<close> keeps.\<close>

definition key_char :: "unicode \<Rightarrow> nat \<Rightarrow> bool" where
  "key_char U c = (is_word U c \<or> is_space c \<or> c = 38)"

definition normalize_citation_key :: "unicode \<Rightarrow> pystr \<Rightarrow> pystr \<Rightarrow> pystr" where
  "normalize_citation_key U author_part year =
     collapse_spaces (strip (filter (key_char U) author_part)) @ lit ''|'' @ year"

text \<open>
  \<^verbatim>\<open>re.sub(r'\band\b', '&', text, flags=re.IGNORECASE)\<close>. The flag of \<open>sub_and\<close>
  tells whether the character before the position is a word character; after a replaced
  \<open>and\<close> it is (the \<open>d\<close>).
\<close>

definition and_here :: "unicode \<Rightarrow> pystr \<Rightarrow> bool" where
  "and_here U s =
     (case s of
        a # n # d # rest \<Rightarrow>
          letter 97 a \<and> letter 110 n \<and> letter 100 d
          \<and> (case rest of [] \<Rightarrow> True | e # _ \<Rightarrow> \<not> is_word U e)
      | _ \<Rightarrow> False)"

function sub_and :: "unicode \<Rightarrow> bool \<Rightarrow> pystr \<Rightarrow> pystr" where
  "sub_and U prev_word [] = []"
| "sub_and U prev_word (c # cs) =
     (if \<not> prev_word \<and> and_here U (c # cs) then 38 # sub_and U True (drop 2 cs)
      else c # sub_and U (is_word U c) cs)"
  by pat_completeness auto
termination
  by (relation "measure (\<lambda>(U, p, s). length s)") auto

definition normalize_text_for_comparison :: "unicode \<Rightarrow> pystr \<Rightarrow> pystr" where
  "normalize_text_for_comparison U text =
     (let t1 = sub_and U False text;
          t2 = filter (\<lambda>c. c \<noteq> 46 \<and> c \<noteq> 44) t1;
          t3 = str_lower U (strip t2)
      in if starts_with (lit ''the'') t3 \<and> takeWhile is_space (drop 3 t3) \<noteq> []
         then dropWhile is_space (drop 3 t3) else t3)"

text \<open>
  \<open>findall\<close> of \<^verbatim>\<open>\b[a-z]{2,}\b\<close>: the maximal runs of word characters that are
  made of two or more lower-case letters (a run with any other word character has no
  word boundary inside, so nothing of it matches).
\<close>

function words :: "unicode \<Rightarrow> pystr \<Rightarrow> pystr list" where
  "words U [] = []"
| "words U (c # cs) =
     (if is_word U c then
        (if list_all is_lower (takeWhile (is_word U) (c # cs)) \<and> length (takeWhile (is_word U) (c # cs)) \<ge> 2
         then [takeWhile (is_word U) (c # cs)] else [])
        @ words U (dropWhile (is_word U) cs)
      else words U cs)"
  by pat_completeness auto
termination
  by (relation "measure (\<lambda>(U, s). length s)") (auto simp: le_imp_less_Suc length_dropWhile_le)

subsection \<open>Citations and references\<close>

record citation =
  display :: pystr
  author :: pystr
  year :: pystr
  warnings :: "pystr list"

record reference =
  ref_display :: pystr
  ref_author :: pystr
  ref_year :: pystr
  full_author :: "pystr option"
  abbreviations :: "pystr list"

text \<open>
  \<open>references\<close> is a \<open>dict\<close> from keys to references, in insertion order: an
  association list. \<open>ref_data.get('full_author', ref_data['author'])\<close>:
\<close>

type_synonym references = "(pystr \<times> reference) list"

definition full_author_of :: "reference \<Rightarrow> pystr" where
  "full_author_of ref_data = (case full_author ref_data of None \<Rightarrow> ref_author ref_data | Some a \<Rightarrow> a)"

subsection \<open>Smart match\<close>

text \<open>
  \<^verbatim>\<open>re.match(r'^(.*?)\s*\[.*?\]', cite_author)\<close>: group 1 is the shortest prefix
  (without a newline) after which come spaces, an opening bracket and, before any newline,
  a closing bracket.
\<close>

definition bracket_here :: "pystr \<Rightarrow> bool" where
  "bracket_here s =
     (case dropWhile is_space s of
        [] \<Rightarrow> False
      | c # rest \<Rightarrow> c = 91 \<and> 93 \<in> set (takeWhile (\<lambda>c. c \<noteq> 10) rest))"

fun prefix_match :: "pystr \<Rightarrow> pystr option" where
  "prefix_match [] = (if bracket_here [] then Some [] else None)"
| "prefix_match (c # cs) =
     (if bracket_here (c # cs) then Some []
      else if c = 10 then None
      else (case prefix_match cs of None \<Rightarrow> None | Some g \<Rightarrow> Some (c # g)))"

definition stopwords :: "pystr set" where
  "stopwords = {lit ''and'', lit ''the'', lit ''et'', lit ''al''}"

text \<open>
  The body of the loop over the references for one candidate: \<open>Inr True\<close> when the
  candidate is returned, \<open>Inr False\<close> when the loop goes on, \<open>Inl IndexError\<close> when
  \<open>ref_norm.split()[0]\<close> raises.
\<close>

definition smart_candidate :: "unicode \<Rightarrow> citation \<Rightarrow> reference \<Rightarrow> py_error + bool" where
  "smart_candidate U cite_data ref_data =
     (let cite_norm = normalize_text_for_comparison U (author cite_data);
          citation_prefix_norm = map_option (normalize_text_for_comparison U) (prefix_match (author cite_data));
          is_etal = contains (lit ''et al'') cite_norm;
          cite_first_surname = (if cite_norm \<noteq> [] then first_word cite_norm else Some []);
          ref_norm = normalize_text_for_comparison U (full_author_of ref_data);
          cite_words = set (words U cite_norm) - stopwords
      in if year cite_data \<noteq> [] \<and> ref_year ref_data \<noteq> year cite_data then Inr False
         else if cite_norm = ref_norm then Inr True
         else if citation_prefix_norm \<noteq> None \<and> citation_prefix_norm \<noteq> Some []
                 \<and> citation_prefix_norm = Some ref_norm then Inr True
         else if is_etal \<and> first_word ref_norm = None then Inl IndexError
         else if is_etal \<and> cite_first_surname = first_word ref_norm then Inr True
         else if card cite_words > 1 \<and> cite_words \<subseteq> set (words U ref_norm) then Inr True
         else Inr False)"

fun smart_loop :: "unicode \<Rightarrow> citation \<Rightarrow> references \<Rightarrow> py_error + pystr option" where
  "smart_loop U cite_data [] = Inr None"
| "smart_loop U cite_data ((ref_key, ref_data) # rest) =
     (case smart_candidate U cite_data ref_data of
        Inl e \<Rightarrow> Inl e
      | Inr True \<Rightarrow> Inr (Some ref_key)
      | Inr False \<Rightarrow> smart_loop U cite_data rest)"

text \<open>
  Before the loop the source reads \<open>cite_norm.split()[0]\<close> when \<open>cite_norm\<close> is not
  empty.
\<close>

definition check_smart_match :: "unicode \<Rightarrow> citation \<Rightarrow> references \<Rightarrow> py_error + pystr option" where
  "check_smart_match U cite_data references =
     (let cite_norm = normalize_text_for_comparison U (author cite_data)
      in if cite_norm \<noteq> [] \<and> first_word cite_norm = None then Inl IndexError
         else smart_loop U cite_data references)"

subsection \<open>The matcher\<close>

text \<open>
  One round of the loop of \<open>get_citation_matches\<close>: the reference key the citation is
  matched to, if any (\<open>if matched_ref_key\<close> is the test that the key is not empty).
\<close>

definition match_citation ::
  "unicode \<Rightarrow> references \<Rightarrow> (pystr \<times> pystr) list \<Rightarrow> pystr \<times> citation \<Rightarrow> py_error + pystr option" where
  "match_citation U references abbreviation_map kc =
     (let cite_key = fst kc; cite_data = snd kc;
          abbr_key = strip (author cite_data) @ lit ''|'' @ year cite_data;
          truthy = (\<lambda>k. case k of None \<Rightarrow> None | Some key \<Rightarrow> if key = [] then None else Some key)
      in if map_of references cite_key \<noteq> None then Inr (truthy (Some cite_key))
         else if map_of abbreviation_map abbr_key \<noteq> None
           then Inr (truthy (map_of abbreviation_map abbr_key))
         else (case check_smart_match U cite_data references of
                 Inl e \<Rightarrow> Inl e
               | Inr k \<Rightarrow> Inr (truthy k)))"

subsection \<open>Diagnostics\<close>

text \<open>The loop of \<open>check_spelling_mismatch\<close> with its state \<open>best_match\<close>, \<open>max_ratio\<close>.\<close>

fun spelling_loop :: "unicode \<Rightarrow> library \<Rightarrow> pystr \<Rightarrow> references \<Rightarrow> pystr option \<times> rat \<Rightarrow> pystr option \<times> rat" where
  "spelling_loop U L cite_author_norm [] st = st"
| "spelling_loop U L cite_author_norm ((ref_key, ref_data) # rest) (best_match, max_ratio) =
     (let r = ratio L cite_author_norm (normalize_text_for_comparison U (ref_author ref_data))
      in if r > 8 / 10 \<and> r > max_ratio then spelling_loop U L cite_author_norm rest (Some ref_key, r)
         else spelling_loop U L cite_author_norm rest (best_match, max_ratio))"

definition check_spelling_mismatch :: "unicode \<Rightarrow> library \<Rightarrow> pystr \<Rightarrow> references \<Rightarrow> pystr option" where
  "check_spelling_mismatch U L cite_author references =
     fst (spelling_loop U L (normalize_text_for_comparison U cite_author) references (None, 0))"

text \<open>
  \<^verbatim>\<open>re.sub(r'\s*et\s+al\.?\s*', '', s, flags=re.IGNORECASE)\<close>: \<open>et_al_here\<close> is the
  text after a match at the head of the text.
\<close>

definition et_al_here :: "pystr \<Rightarrow> pystr option" where
  "et_al_here s =
     (case dropWhile is_space s of
        e # t # s2 \<Rightarrow>
          if letter 101 e \<and> letter 116 t \<and> takeWhile is_space s2 \<noteq> [] then
            (case dropWhile is_space s2 of
               a # l # s4 \<Rightarrow>
                 if letter 97 a \<and> letter 108 l then
                   Some (dropWhile is_space (case s4 of [] \<Rightarrow> [] | d # s5 \<Rightarrow> if d = 46 then s5 else s4))
                 else None
             | _ \<Rightarrow> None)
          else None
      | _ \<Rightarrow> None)"

lemma et_al_here_shorter: "et_al_here s = Some rest \<Longrightarrow> length rest < length s"
proof -
  assume a: "et_al_here s = Some rest"
  have d: "\<And>P (xs::pystr). length (dropWhile P xs) \<le> length xs"
    by (rule length_dropWhile_le)
  from a obtain e t s2 a' l s4 where
    1: "dropWhile is_space s = e # t # s2" and 2: "dropWhile is_space s2 = a' # l # s4" and
    3: "rest = dropWhile is_space (case s4 of [] \<Rightarrow> [] | d # s5 \<Rightarrow> if d = 46 then s5 else s4)"
    by (auto simp: et_al_here_def split: list.splits if_splits)
  have "length rest \<le> length s4"
    unfolding 3 using d [of is_space "case s4 of [] \<Rightarrow> [] | d # s5 \<Rightarrow> if d = 46 then s5 else s4"]
    by (auto split: list.splits if_splits)
  also have "length s4 < length (dropWhile is_space s2)" by (simp add: 2)
  also have "\<dots> \<le> length s2" by (rule d)
  also have "length s2 < length (dropWhile is_space s)" by (simp add: 1)
  also have "\<dots> \<le> length s" by (rule d)
  finally show ?thesis .
qed

function remove_et_al :: "pystr \<Rightarrow> pystr" where
  "remove_et_al [] = []"
| "remove_et_al (c # cs) =
     (case et_al_here (c # cs) of
        Some rest \<Rightarrow> remove_et_al rest
      | None \<Rightarrow> c # remove_et_al cs)"
  by pat_completeness auto
termination
  by (relation "measure length") (auto dest: et_al_here_shorter)

definition extract_first_surname :: "pystr \<Rightarrow> pystr" where
  "extract_first_surname author_str =
     (let s = remove_et_al (strip author_str)
      in if 44 \<in> set s then strip (first_field 44 s)
         else (case first_word s of None \<Rightarrow> [] | Some w \<Rightarrow> w))"

text \<open>\<^verbatim>\<open>re.match(r'^[A-Z]\.?$', p.strip())\<close> on a stripped text.\<close>

definition is_initial :: "pystr \<Rightarrow> bool" where
  "is_initial p = (case p of [c] \<Rightarrow> is_upper c | [c, d] \<Rightarrow> is_upper c \<and> d = 46 | _ \<Rightarrow> False)"

definition count_authors :: "pystr \<Rightarrow> nat" where
  "count_authors ref_full_author =
     (if 38 \<in> set ref_full_author then
        length (filter (\<lambda>p. strip p \<noteq> [] \<and> \<not> is_initial (strip p))
                  (split_on 44 (first_field 38 ref_full_author))) + 1
      else 1)"

record et_al_check =
  message :: pystr
  author_count :: nat
  correct_form :: pystr
  severity :: "pystr option"

text \<open>
  \<open>'et al' in cite_author.lower()\<close>. No character outside ASCII has a lower case with
  one of the characters of \<open>et al\<close> in it, so the test sees the same occurrences in the
  text with only its ASCII capitals changed.
\<close>

definition has_et_al :: "citation \<Rightarrow> bool" where
  "has_et_al cite_data = contains (lit ''et al'') (lower (strip (author cite_data)))"

definition check_et_al_misuse :: "citation \<Rightarrow> reference \<Rightarrow> et_al_check option" where
  "check_et_al_misuse cite_data ref_data =
     (let ref_full_author = full_author_of ref_data;
          has_et_al = has_et_al cite_data;
          n = count_authors ref_full_author
      in if has_et_al \<and> n \<le> 2 then
           Some \<lparr>message = lit ''Change author per reference - use '' @ [39] @ ref_author ref_data
                    @ [39] @ lit '', not '' @ [39] @ lit ''et al.'' @ [39]
                    @ lit '' (reference has only '' @ py_str (int n) @ lit '' author''
                    @ (if n > 1 then lit ''s'' else []) @ lit '')'',
                 author_count = n, correct_form = ref_author ref_data, severity = None\<rparr>
         else if \<not> has_et_al \<and> n \<ge> 3 then
           (let form = extract_first_surname ref_full_author @ lit '' et al.''
            in Some \<lparr>message = lit ''Consider using '' @ [39] @ lit ''et al.'' @ [39]
                       @ lit '' - reference has '' @ py_str (int n) @ lit '' authors, APA allows ''
                       @ [39] @ form @ [39],
                     author_count = n, correct_form = form, severity = Some (lit ''warning'')\<rparr>)
         else None)"

text \<open>\<open>et_al_check.get('severity', 'error')\<close>.\<close>

definition severity_or_error :: "et_al_check \<Rightarrow> pystr" where
  "severity_or_error chk = (case severity chk of None \<Rightarrow> lit ''error'' | Some sv \<Rightarrow> sv)"

subsection \<open>Duplicate detection on the reference table\<close>

record ref_detail =
  line :: nat
  detail_text :: pystr

fun apa_dup_inner :: "library \<Rightarrow> pystr \<times> pystr \<Rightarrow> (pystr \<times> pystr) list \<Rightarrow> pystr duplicate list" where
  "apa_dup_inner L ref_a [] = []"
| "apa_dup_inner L ref_a (ref_b # later) =
     (if length (snd ref_a) = 0 \<or> length (snd ref_b) = 0 then apa_dup_inner L ref_a later
      else if length_ratio (snd ref_a) (snd ref_b) < 6 / 10 then apa_dup_inner L ref_a later
      else if ratio L (snd ref_a) (snd ref_b) > 85 / 100 then
        \<lparr>dup_id = fst ref_b, dup_text = take 100 (snd ref_b), duplicate_of = fst ref_a,
         score = round1 L (ratio L (snd ref_a) (snd ref_b) * 100)\<rparr> # apa_dup_inner L ref_a later
      else apa_dup_inner L ref_a later)"

fun apa_dup_outer :: "library \<Rightarrow> (pystr \<times> pystr) list \<Rightarrow> pystr duplicate list" where
  "apa_dup_outer L [] = []"
| "apa_dup_outer L (ref_a # later) = apa_dup_inner L ref_a later @ apa_dup_outer L later"

definition processed_refs :: "references \<Rightarrow> (pystr \<times> ref_detail) list \<Rightarrow> (pystr \<times> pystr) list" where
  "processed_refs references reference_details =
     map (\<lambda>(key, data).
            (key, case map_of reference_details key of
                    None \<Rightarrow> ref_display data
                  | Some detail \<Rightarrow> detail_text detail)) references"

definition find_duplicates ::
  "library \<Rightarrow> references \<Rightarrow> (pystr \<times> ref_detail) list \<Rightarrow> pystr duplicate list" where
  "find_duplicates L references reference_details =
     apa_dup_outer L (processed_refs references reference_details)"

text \<open>
  \<open>find_references_in_bibliography\<close> builds the tables that \<open>validate_document\<close> hands
  to \<open>find_duplicates\<close>. The parser is an argument of the function: \<open>parse\<close> is its
  method \<open>parse_reference\<close>, and \<open>parsed\<close> holds the entries of the dict it returns that
  the function reads. The state of the loop over the paragraphs is \<open>references\<close>,
  \<open>reference_details\<close>, \<open>abbreviation_map\<close> and \<open>in_references_section\<close>; \<open>i\<close> is
  the index of \<open>enumerate\<close>. \<open>stored_text\<close> is the text kept for an entry.
\<close>

record parsed =
  parsed_author :: pystr
  parsed_year :: pystr
  parsed_full_author :: pystr
  parsed_abbreviations :: "pystr list"

definition stored_text :: "pystr \<Rightarrow> pystr" where
  "stored_text para_stripped =
     take 150 para_stripped @ (if length para_stripped > 150 then lit ''...'' else [])"

type_synonym tables = "references \<times> (pystr \<times> ref_detail) list \<times> (pystr \<times> pystr) list"

fun bibliography_loop ::
  "unicode \<Rightarrow> (pystr \<Rightarrow> parsed option) \<Rightarrow> nat \<Rightarrow> pystr list \<Rightarrow> bool \<Rightarrow> tables \<Rightarrow> tables" where
  "bibliography_loop U parse i [] in_references_section st = st"
| "bibliography_loop U parse i (para # rest) in_references_section
     (references, reference_details, abbreviation_map) =
     (let para_stripped = strip para in
      if contains (lit ''<ref-open>'') para_stripped then
        bibliography_loop U parse (i + 1) rest True (references, reference_details, abbreviation_map)
      else if contains (lit ''<ref-close>'') para_stripped then
        bibliography_loop U parse (i + 1) rest False (references, reference_details, abbreviation_map)
      else if in_references_section \<and> para_stripped \<noteq> [] then
        (case parse para_stripped of
           None \<Rightarrow>
             bibliography_loop U parse (i + 1) rest in_references_section
               (references, reference_details, abbreviation_map)
         | Some ref_data \<Rightarrow>
             (let author_display = parsed_author ref_data;
                  year = parsed_year ref_data;
                  ref_key = normalize_citation_key U author_display year
              in if map_of references ref_key = None then
                   bibliography_loop U parse (i + 1) rest in_references_section
                     (dict_set ref_key
                        \<lparr>ref_display = author_display @ lit '' ('' @ year @ lit '')'',
                         ref_author = author_display, ref_year = year,
                         full_author = Some (parsed_full_author ref_data),
                         abbreviations = parsed_abbreviations ref_data\<rparr> references,
                      dict_set ref_key \<lparr>line = i + 1, detail_text = stored_text para_stripped\<rparr>
                        reference_details,
                      fold (\<lambda>abbr m. dict_set (abbr @ lit ''|'' @ year) ref_key m)
                        (parsed_abbreviations ref_data) abbreviation_map)
                 else
                   bibliography_loop U parse (i + 1) rest in_references_section
                     (references, reference_details, abbreviation_map)))
      else
        bibliography_loop U parse (i + 1) rest in_references_section
          (references, reference_details, abbreviation_map))"

definition find_references_in_bibliography ::
  "unicode \<Rightarrow> (pystr \<Rightarrow> parsed option) \<Rightarrow> pystr list \<Rightarrow> tables" where
  "find_references_in_bibliography U parse paragraphs =
     bibliography_loop U parse 0 paragraphs False ([], [], [])"

text \<open>
  The duplicates that \<open>validate_document\<close> reports for the paragraphs of a document: it
  calls \<open>find_duplicates\<close> with the two tables of \<open>find_references_in_bibliography\<close>.
\<close>

definition document_duplicates ::
  "unicode \<Rightarrow> library \<Rightarrow> (pystr \<Rightarrow> parsed option) \<Rightarrow> pystr list \<Rightarrow> pystr duplicate list" where
  "document_duplicates U L parse paragraphs =
     (case find_references_in_bibliography U parse paragraphs of
        (references, reference_details, abbreviation_map) \<Rightarrow>
          find_duplicates L references reference_details)"

subsection \<open>The loop of \<open>validate_document\<close> over the citations\<close>

record year_mismatch =
  ym_citation :: pystr
  cited_year :: pystr
  ym_ref_year :: pystr
  ym_ref_key :: pystr
  ym_locations :: "nat list"

record spelling_mismatch =
  sm_citation :: pystr
  cited_author :: pystr
  sm_ref_author :: pystr
  sm_ref_key :: pystr
  sm_locations :: "nat list"

record missing_ref =
  mr_reference :: pystr
  cited_at_paragraphs :: "nat list"

record format_error =
  fe_citation :: pystr
  fe_warnings :: "pystr list"
  fe_locations :: "nat list"

record et_al_error =
  ee_citation :: pystr
  ee_message :: pystr
  ee_correct_form :: pystr
  ee_author_count :: nat
  ee_locations :: "nat list"
  ee_severity :: pystr

record report =
  valid_citations :: "pystr list"
  et_al_errors :: "et_al_error list"
  year_mismatches :: "year_mismatch list"
  spelling_mismatches :: "spelling_mismatch list"
  missing_refs :: "missing_ref list"
  format_errors :: "format_error list"

text \<open>
  The search for a year mismatch: the first reference whose author, normalized with the
  year \<open>0000\<close> and cut at the bar, is the citation's.
\<close>

definition key_author :: "unicode \<Rightarrow> pystr \<Rightarrow> pystr" where
  "key_author U a = first_field 124 (normalize_citation_key U a (lit ''0000''))"

fun find_year_match :: "unicode \<Rightarrow> pystr \<Rightarrow> references \<Rightarrow> (pystr \<times> reference) option" where
  "find_year_match U cite_author [] = None"
| "find_year_match U cite_author ((ref_key, ref_data) # rest) =
     (if key_author U (ref_author ref_data) = key_author U cite_author then Some (ref_key, ref_data)
      else find_year_match U cite_author rest)"

definition add_format_error :: "citation \<Rightarrow> nat list \<Rightarrow> report \<Rightarrow> report" where
  "add_format_error cite_data locations rep =
     (if warnings cite_data \<noteq> [] then
        rep\<lparr>format_errors := format_errors rep
              @ [\<lparr>fe_citation = display cite_data, fe_warnings = warnings cite_data,
                  fe_locations = locations\<rparr>]\<rparr>
      else rep)"

text \<open>
  One round of the loop: \<open>matched\<close> is \<open>matched_pairs.get(cite_key)\<close> (the citation is in
  \<open>matched_citations\<close> exactly when it has an entry there), \<open>locations\<close> is
  \<open>citation_locations.get(cite_key, [])\<close>. \<open>references[key]\<close> raises KeyError on a key
  that is not in the table.
\<close>

definition process_citation ::
  "unicode \<Rightarrow> library \<Rightarrow> references \<Rightarrow> nat list \<Rightarrow> pystr option \<Rightarrow> citation \<Rightarrow> report \<Rightarrow> py_error + report" where
  "process_citation U L references locations matched cite_data rep =
     (let cite_author = strip (author cite_data) in
      case matched of
        Some ref_key \<Rightarrow>
          (case map_of references ref_key of
             None \<Rightarrow> Inl KeyError
           | Some ref_data \<Rightarrow>
               (let rep1 = rep\<lparr>valid_citations := valid_citations rep @ [display cite_data]\<rparr>;
                    rep2 = (case check_et_al_misuse cite_data ref_data of
                              None \<Rightarrow> rep1
                            | Some chk \<Rightarrow>
                                rep1\<lparr>et_al_errors := et_al_errors rep1
                                  @ [\<lparr>ee_citation = display cite_data, ee_message = message chk,
                                      ee_correct_form = correct_form chk,
                                      ee_author_count = author_count chk,
                                      ee_locations = locations,
                                      ee_severity = severity_or_error chk\<rparr>]\<rparr>)
                in Inr (add_format_error cite_data locations rep2)))
      | None \<Rightarrow>
          (case find_year_match U cite_author references of
             Some (ref_key, ref_data) \<Rightarrow>
               Inr (add_format_error cite_data locations
                 (rep\<lparr>year_mismatches := year_mismatches rep
                    @ [\<lparr>ym_citation = display cite_data, cited_year = year cite_data,
                        ym_ref_year = ref_year ref_data, ym_ref_key = ref_key,
                        ym_locations = locations\<rparr>]\<rparr>))
           | None \<Rightarrow>
               (case check_spelling_mismatch U L cite_author references of
                  Some potential_match_key \<Rightarrow>
                    (if potential_match_key \<noteq> [] then
                       (case map_of references potential_match_key of
                          None \<Rightarrow> Inl KeyError
                        | Some ref_data \<Rightarrow>
                            Inr (add_format_error cite_data locations
                              (rep\<lparr>spelling_mismatches := spelling_mismatches rep
                                 @ [\<lparr>sm_citation = display cite_data, cited_author = cite_author,
                                     sm_ref_author = ref_author ref_data,
                                     sm_ref_key = potential_match_key,
                                     sm_locations = locations\<rparr>]\<rparr>)))
                     else
                       Inr (add_format_error cite_data locations
                         (rep\<lparr>missing_refs := missing_refs rep
                            @ [\<lparr>mr_reference = display cite_data,
                                cited_at_paragraphs = locations\<rparr>]\<rparr>)))
                | None \<Rightarrow>
                    Inr (add_format_error cite_data locations
                      (rep\<lparr>missing_refs := missing_refs rep
                         @ [\<lparr>mr_reference = display cite_data,
                             cited_at_paragraphs = locations\<rparr>]\<rparr>)))))"


section \<open>Properties of the name-year checker\<close>

lemmas text_defs = is_upper_def is_lower_def is_word_def lower_def str_lower_def letter_def starts_with_def
  first_field_def first_word_def and_here_def strip_def

definition mk_cite :: "string \<Rightarrow> string \<Rightarrow> citation" where
  "mk_cite a y = \<lparr>display = lit a @ lit '' ('' @ lit y @ lit '')'', author = lit a, year = lit y, warnings = []\<rparr>"

definition mk_ref :: "string \<Rightarrow> string \<Rightarrow> string \<Rightarrow> reference" where
  "mk_ref a full y = \<lparr>ref_display = lit a @ lit '' ('' @ lit y @ lit '')'', ref_author = lit a,
     ref_year = lit y, full_author = Some (lit full), abbreviations = []\<rparr>"

lemma n1: "normalize_text_for_comparison U (lit ''Smith'') = lit ''smith''"
  by (simp add: normalize_text_for_comparison_def text_defs char_defs)

lemma n2: "normalize_text_for_comparison U (lit ''Smith, J., & Jones, M.'') = lit ''smith j & jones m''"
  by (simp add: normalize_text_for_comparison_def text_defs char_defs)

lemma w1: "words U (lit ''smith'') = [lit ''smith'']"
  by (simp add: text_defs char_defs)

lemma w2: "words U (lit ''smith j & jones m'') = [lit ''smith'', lit ''jones'']"
  by (simp add: text_defs char_defs)

lemma c1: "count_authors (lit ''Smith, J., & Jones, M.'') = 2"
  by (simp add: count_authors_def is_initial_def text_defs char_defs)

lemma c2: "count_authors (lit ''Smith, J., Jones, M., & Brown, K.'') = 3"
  by (simp add: count_authors_def is_initial_def text_defs char_defs)


lemma s1: "smart_candidate U (mk_cite ''Smith'' ''2020'') (mk_ref ''Smith & Jones'' ''Smith, J., & Jones, M.'' ''2020'') = Inr False"
  by (simp add: smart_candidate_def mk_cite_def mk_ref_def full_author_of_def n1 n2 w1 w2 stopwords_def bracket_here_def)
     (simp add: text_defs char_defs bracket_here_def)


lemma space_not_lower: "is_space c \<Longrightarrow> \<not> is_lower c"
  by (auto simp: is_space_def is_lower_def)

lemma words_spaces: "list_all is_space s \<Longrightarrow> words U s = []"
proof (induction U s rule: words.induct)
  case (1 U)
  show ?case by simp
next
  case (2 U c cs)
  have c: "\<not> is_lower c" using 2(3) by (simp add: space_not_lower)
  have cs: "list_all is_space cs" using 2(3) by simp
  show ?case
  proof (cases "is_word U c")
    case True
    have "list_all is_space (dropWhile (is_word U) cs)"
      using cs by (auto simp: list_all_iff dest: set_dropWhileD)
    then have "words U (dropWhile (is_word U) cs) = []" using 2(1) True by simp
    then show ?thesis using True c by simp
  next
    case False
    then show ?thesis using 2(2) cs by simp
  qed
qed

lemma first_word_None: "first_word s = None \<Longrightarrow> list_all is_space s"
proof -
  assume a: "first_word s = None"
  have "dropWhile is_space s = []"
  proof (cases "dropWhile is_space s")
    case Nil
    then show ?thesis .
  next
    case (Cons c cs)
    then have "\<not> is_space c" using hd_dropWhile [of is_space s] by auto
    then have "takeWhile (\<lambda>c. \<not> is_space c) (dropWhile is_space s) \<noteq> []" by (simp add: Cons)
    with a show ?thesis by (simp add: first_word_def Let_def)
  qed
  then show ?thesis by (simp add: list_all_iff)
qed

lemma contains_nonempty: "contains sub s \<Longrightarrow> sub \<noteq> [] \<Longrightarrow> s \<noteq> []"
  by (cases s) auto

text \<open>
  A sample of the Unicode tables, for the examples: the Latin-1 block. Among the code
  points from 128 to 255, \<open>str.isalnum\<close> holds of the letters (U+00AA, U+00B5, U+00BA,
  U+00C0 to U+00FF without the two operators U+00D7 and U+00F7), of the superscript digits
  and of the three fractions; \<open>str.lower\<close> adds 32 to a capital letter. The sample has
  nothing beyond 255.
\<close>

definition latin1 :: unicode where
  "latin1 =
     \<lparr>alnum = (\<lambda>c. c \<in> {170, 178, 179, 181, 185, 186, 188, 189, 190}
                   \<or> (192 \<le> c \<and> c \<le> 255 \<and> c \<noteq> 215 \<and> c \<noteq> 247)),
      lower_text = map (\<lambda>c. if is_upper c \<or> (192 \<le> c \<and> c \<le> 222 \<and> c \<noteq> 215) then c + 32 else c)\<rparr>"

text \<open>\<open>M\<close>, u with diaeresis (U+00FC), \<open>ller\<close>.\<close>

definition muller :: pystr where
  "muller = lit ''M'' @ 252 # lit ''ller''"

text \<open>
  C7 (amended). In smart matching, a candidate reference that passes the year
  precondition is accepted when the citation's set of significant words (lower-case
  words of two or more letters, without \<open>and\<close>, \<open>the\<close>, \<open>et\<close>, \<open>al\<close>) has at
  least two elements and is a subset of the candidate's word set; the loop then returns the
  candidate's key, and so does \<open>check_smart_match\<close>. When the set has fewer than two
  elements the word sets decide nothing:
  the candidate is accepted only by one of the three rules before, the equality of the
  normalized authors (A), the equality of the normalized text before a bracket with the
  candidate's normalized author (B), or \<open>et al\<close> in the citation with equal first words
  (C).
\<close>

theorem word_subset_match:
  assumes "year cite_data = [] \<or> ref_year ref_data = year cite_data"
  shows "(card (set (words U (normalize_text_for_comparison U (author cite_data))) - stopwords) > 1
          \<and> set (words U (normalize_text_for_comparison U (author cite_data))) - stopwords
                \<subseteq> set (words U (normalize_text_for_comparison U (full_author_of ref_data)))
          \<longrightarrow> smart_candidate U cite_data ref_data = Inr True
              \<and> smart_loop U cite_data ((ref_key, ref_data) # rest) = Inr (Some ref_key)
              \<and> check_smart_match U cite_data ((ref_key, ref_data) # rest) = Inr (Some ref_key))
       \<and> (card (set (words U (normalize_text_for_comparison U (author cite_data))) - stopwords) \<le> 1
          \<and> smart_candidate U cite_data ref_data = Inr True
          \<longrightarrow> normalize_text_for_comparison U (author cite_data)
                = normalize_text_for_comparison U (full_author_of ref_data)
              \<or> (normalize_text_for_comparison U (full_author_of ref_data) \<noteq> []
                 \<and> map_option (normalize_text_for_comparison U) (prefix_match (author cite_data))
                     = Some (normalize_text_for_comparison U (full_author_of ref_data)))
              \<or> (contains (lit ''et al'') (normalize_text_for_comparison U (author cite_data))
                 \<and> first_word (normalize_text_for_comparison U (author cite_data))
                     = first_word (normalize_text_for_comparison U (full_author_of ref_data))))"
proof (intro conjI impI)
  let ?cn = "normalize_text_for_comparison U (author cite_data)"
  let ?rn = "normalize_text_for_comparison U (full_author_of ref_data)"
  let ?cw = "set (words U ?cn) - stopwords"
  assume d: "card ?cw > 1 \<and> ?cw \<subseteq> set (words U ?rn)"
  have "?cw \<noteq> {}"
  proof
    assume "?cw = {}"
    then have "card ?cw = 0" by simp
    with d show False by simp
  qed
  then have "words U ?rn \<noteq> []"
    using d by auto
  then have fw: "first_word ?rn \<noteq> None"
    using words_spaces first_word_None by blast
  show c: "smart_candidate U cite_data ref_data = Inr True"
    using assms d fw by (auto simp: smart_candidate_def Let_def)
  then show l: "smart_loop U cite_data ((ref_key, ref_data) # rest) = Inr (Some ref_key)" by simp
  have "words U ?cn \<noteq> []"
    using \<open>?cw \<noteq> {}\<close> by auto
  then have "first_word ?cn \<noteq> None"
    using words_spaces first_word_None by blast
  then show "check_smart_match U cite_data ((ref_key, ref_data) # rest) = Inr (Some ref_key)"
    using l by (simp add: check_smart_match_def Let_def)
next
  let ?cn = "normalize_text_for_comparison U (author cite_data)"
  let ?rn = "normalize_text_for_comparison U (full_author_of ref_data)"
  let ?cw = "set (words U ?cn) - stopwords"
  assume s: "card ?cw \<le> 1 \<and> smart_candidate U cite_data ref_data = Inr True"
  have e: "contains (lit ''et al'') ?cn \<Longrightarrow> ?cn \<noteq> []"
    using contains_nonempty [of "lit ''et al''" ?cn] by (simp add: lit_def)
  show "?cn = ?rn
      \<or> (?rn \<noteq> [] \<and> map_option (normalize_text_for_comparison U) (prefix_match (author cite_data)) = Some ?rn)
      \<or> (contains (lit ''et al'') ?cn \<and> first_word ?cn = first_word ?rn)"
  proof (cases "?cn = ?rn")
    case True
    then show ?thesis by simp
  next
    case ne: False
    show ?thesis
    proof (cases "?rn \<noteq> [] \<and> map_option (normalize_text_for_comparison U) (prefix_match (author cite_data)) = Some ?rn")
      case True
      then show ?thesis by simp
    next
      case nb: False
      have "contains (lit ''et al'') ?cn \<and> first_word ?cn = first_word ?rn"
        using s ne nb e by (auto simp: smart_candidate_def Let_def split: if_splits)
      then show ?thesis by simp
    qed
  qed
qed

definition cite_two :: citation where "cite_two = mk_cite ''Smith and Jones'' ''2020''"
definition cite_one :: citation where "cite_one = mk_cite ''Smith'' ''2020''"
definition ref_two :: reference where
  "ref_two = mk_ref ''Smith & Jones'' ''Smith, J., & Jones, M.'' ''2020''"
definition ref_one :: reference where
  "ref_one = mk_ref ''Smith'' ''Smith'' ''2020''"

lemma n3: "normalize_text_for_comparison U (lit ''Smith and Jones'') = lit ''smith & jones''"
  by (simp add: normalize_text_for_comparison_def text_defs char_defs)

lemma w3: "words U (lit ''smith & jones'') = [lit ''smith'', lit ''jones'']"
  by (simp add: text_defs char_defs)

lemma n4: "normalize_text_for_comparison latin1 muller = lit ''m'' @ 252 # lit ''ller''"
  by (simp add: normalize_text_for_comparison_def muller_def latin1_def text_defs char_defs)

lemma w4: "words latin1 (lit ''m'' @ 252 # lit ''ller'') = []"
  by (simp add: latin1_def text_defs char_defs)

theorem word_subset_match_witness:
  "ref_year ref_two = year cite_two
   \<and> set (words latin1 (normalize_text_for_comparison latin1 (author cite_two))) - stopwords
       = {lit ''smith'', lit ''jones''}
   \<and> smart_candidate latin1 cite_two ref_two = Inr True
   \<and> check_smart_match latin1 cite_two [(lit ''Smith & Jones|2020'', ref_two)]
       = Inr (Some (lit ''Smith & Jones|2020''))
   \<and> ref_year ref_one = year cite_one
   \<and> set (words latin1 (normalize_text_for_comparison latin1 (author cite_one))) - stopwords = {lit ''smith''}
   \<and> smart_candidate latin1 cite_one ref_one = Inr True
   \<and> normalize_text_for_comparison latin1 (author cite_one)
       = normalize_text_for_comparison latin1 (full_author_of ref_one)
   \<and> words latin1 (normalize_text_for_comparison latin1 muller) = []"
proof -
  have y: "year cite_two = [] \<or> ref_year ref_two = year cite_two"
    by (simp add: cite_two_def ref_two_def mk_cite_def mk_ref_def)
  have cw: "set (words latin1 (normalize_text_for_comparison latin1 (author cite_two))) - stopwords
       = {lit ''smith'', lit ''jones''}"
    by (simp add: cite_two_def mk_cite_def n3 w3 stopwords_def) (auto simp: lit_def)
  have rw: "set (words latin1 (normalize_text_for_comparison latin1 (full_author_of ref_two)))
       = {lit ''smith'', lit ''jones''}"
    by (simp add: ref_two_def mk_ref_def full_author_of_def n2 w2)
  have k: "card {lit ''smith'', lit ''jones''} > 1"
    by (simp add: lit_def)
  have two: "smart_candidate latin1 cite_two ref_two = Inr True
       \<and> check_smart_match latin1 cite_two [(lit ''Smith & Jones|2020'', ref_two)]
           = Inr (Some (lit ''Smith & Jones|2020''))"
    using word_subset_match [OF y, where U = latin1 and ref_key = "lit ''Smith & Jones|2020''" and rest = "[]"]
      cw rw k by simp
  have y1: "year cite_one = [] \<or> ref_year ref_one = year cite_one"
    by (simp add: cite_one_def ref_one_def mk_cite_def mk_ref_def)
  have cw1: "set (words latin1 (normalize_text_for_comparison latin1 (author cite_one))) - stopwords = {lit ''smith''}"
    by (simp add: cite_one_def mk_cite_def n1 w1 stopwords_def) (auto simp: lit_def)
  have a1: "normalize_text_for_comparison latin1 (author cite_one)
       = normalize_text_for_comparison latin1 (full_author_of ref_one)"
    by (simp add: cite_one_def ref_one_def mk_cite_def mk_ref_def full_author_of_def)
  have ne: "lit ''2020'' \<noteq> []" by (simp add: lit_def)
  have s1: "smart_candidate latin1 cite_one ref_one = Inr True"
    using a1 by (simp add: smart_candidate_def Let_def)
      (simp add: cite_one_def ref_one_def mk_cite_def mk_ref_def)
  note one = word_subset_match [OF y1, where U = latin1 and ref_key = "lit ''Smith|2020''" and rest = "[]"]
  have "normalize_text_for_comparison latin1 (author cite_one)
       = normalize_text_for_comparison latin1 (full_author_of ref_one)
     \<or> normalize_text_for_comparison latin1 (author cite_one)
       = normalize_text_for_comparison latin1 (full_author_of ref_one)"
    using one cw1 s1 a1 by simp
  with two cw cw1 s1 a1 n4 w4 show ?thesis
    by (simp add: cite_two_def cite_one_def ref_two_def ref_one_def mk_cite_def mk_ref_def)
qed

text \<open>
  The claim as stated also covers a citation with one significant word, and fails there:
  the source tests \<open>len(cite_words) > 1\<close>, so \<open>Smith\<close> is not matched to
  \<open>Smith, J., & Jones, M.\<close> by any rule, whatever the Unicode tables are.
\<close>

theorem word_subset_match_counterexample:
  "\<forall>U. ref_year ref_two = year cite_one
   \<and> set (words U (normalize_text_for_comparison U (author cite_one))) - stopwords = {lit ''smith''}
   \<and> {lit ''smith''} \<subseteq> set (words U (normalize_text_for_comparison U (full_author_of ref_two)))
   \<and> smart_candidate U cite_one ref_two = Inr False
   \<and> check_smart_match U cite_one [(lit ''Smith & Jones|2020'', ref_two)] = Inr None"
proof
  fix U
  have cw: "set (words U (normalize_text_for_comparison U (author cite_one))) - stopwords = {lit ''smith''}"
    by (simp add: cite_one_def mk_cite_def n1 w1 stopwords_def) (auto simp: lit_def)
  have rw: "set (words U (normalize_text_for_comparison U (full_author_of ref_two)))
       = {lit ''smith'', lit ''jones''}"
    by (simp add: ref_two_def mk_ref_def full_author_of_def n2 w2)
  have sc: "smart_candidate U cite_one ref_two = Inr False"
    unfolding cite_one_def ref_two_def by (rule s1)
  have fw: "first_word (lit ''smith'') \<noteq> None"
    by (simp add: text_defs char_defs)
  have "check_smart_match U cite_one [(lit ''Smith & Jones|2020'', ref_two)] = Inr None"
    using sc fw by (simp add: check_smart_match_def Let_def) (simp add: cite_one_def mk_cite_def n1)
  with cw rw sc show "ref_year ref_two = year cite_one
   \<and> set (words U (normalize_text_for_comparison U (author cite_one))) - stopwords = {lit ''smith''}
   \<and> {lit ''smith''} \<subseteq> set (words U (normalize_text_for_comparison U (full_author_of ref_two)))
   \<and> smart_candidate U cite_one ref_two = Inr False
   \<and> check_smart_match U cite_one [(lit ''Smith & Jones|2020'', ref_two)] = Inr None"
    by (simp add: cite_one_def ref_two_def mk_cite_def mk_ref_def)
qed






lemma mk_ref_fields:
  "full_author_of (mk_ref a full y) = lit full" "ref_author (mk_ref a full y) = lit a"
  "ref_year (mk_ref a full y) = lit y"
  by (simp_all add: mk_ref_def full_author_of_def)






subsection \<open>Diagnoses of unresolved citations\<close>

definition clean_author :: "unicode \<Rightarrow> pystr \<Rightarrow> pystr" where
  "clean_author U a = collapse_spaces (strip (filter (key_char U) a))"

lemma normalize_citation_key_clean:
  "normalize_citation_key U a y = clean_author U a @ 124 # y"
  by (simp add: normalize_citation_key_def clean_author_def lit_def)

lemma set_collapse_spaces: "set (collapse_spaces s) \<subseteq> insert 32 (set s)"
proof (induction s)
  case Nil
  show ?case by simp
next
  case (Cons c cs)
  show ?case
  proof (cases "is_space c")
    case False
    then show ?thesis using Cons by auto
  next
    case True
    show ?thesis
    proof (cases cs)
      case Nil
      then show ?thesis using True by simp
    next
      case (Cons d ds)
      show ?thesis
      proof (cases "is_space d")
        case sd: True
        have "collapse_spaces (c # cs) = collapse_spaces cs" using True sd Cons by simp
        then show ?thesis using Cons.IH by auto
      next
        case nd: False
        have "collapse_spaces (c # cs) = 32 # collapse_spaces cs" using True nd Cons by simp
        then show ?thesis using Cons.IH by auto
      qed
    qed
  qed
qed

lemma set_strip: "x \<in> set (strip s) \<Longrightarrow> x \<in> set s"
proof -
  assume "x \<in> set (strip s)"
  then have "x \<in> set (dropWhile is_space (rev (dropWhile is_space s)))"
    by (simp add: strip_def)
  then have "x \<in> set (rev (dropWhile is_space s))" by (rule set_dropWhileD)
  then have "x \<in> set (dropWhile is_space s)" by simp
  then show ?thesis by (rule set_dropWhileD)
qed

lemma no_bar_clean: "124 \<notin> set (clean_author U a)"
proof
  assume "124 \<in> set (clean_author U a)"
  then have "124 \<in> insert 32 (set (strip (filter (key_char U) a)))"
    using set_collapse_spaces unfolding clean_author_def by blast
  then have "124 \<in> set (strip (filter (key_char U) a))" by simp
  then have "124 \<in> set (filter (key_char U) a)" by (rule set_strip)
  then have "key_char U 124" by simp
  then show False
    by (simp add: key_char_def is_word_def is_space_def is_upper_def is_lower_def is_digit_def)
qed

lemma key_author_clean: "key_author U a = clean_author U a"
proof -
  have "takeWhile (\<lambda>c. c \<noteq> 124) (clean_author U a @ 124 # lit ''0000'') = takeWhile (\<lambda>c. c \<noteq> 124) (clean_author U a)"
    by (rule takeWhile_tail) simp
  also have "\<dots> = clean_author U a"
    using no_bar_clean [of U a] by (auto intro: takeWhile_eq_all_conv [THEN iffD2])
  finally show ?thesis
    by (simp add: key_author_def first_field_def normalize_citation_key_clean)
qed

text \<open>Stripping commutes with the filter of the key characters.\<close>

lemma lstrip_filter:
  "dropWhile is_space (filter (key_char U) (dropWhile is_space a)) = dropWhile is_space (filter (key_char U) a)"
proof (induction a)
  case Nil
  show ?case by simp
next
  case (Cons c cs)
  show ?case
  proof (cases "is_space c")
    case True
    then have "key_char U c" by (simp add: key_char_def)
    with True Cons show ?thesis by simp
  next
    case False
    then show ?thesis by simp
  qed
qed

lemma rstrip_filter:
  "rev (dropWhile is_space (rev (filter (key_char U) (rev (dropWhile is_space (rev a))))))
     = rev (dropWhile is_space (rev (filter (key_char U) a)))"
proof -
  have "dropWhile is_space (filter (key_char U) (dropWhile is_space (rev a)))
      = dropWhile is_space (filter (key_char U) (rev a))"
    by (rule lstrip_filter)
  then show ?thesis by (simp add: rev_filter)
qed

lemma dropWhile_snoc: "\<not> P c \<Longrightarrow> \<exists>zs. dropWhile P (xs @ [c]) = zs @ [c]"
proof (induction xs)
  case Nil
  then show ?case by simp
next
  case (Cons x xs)
  then obtain zs where zs: "dropWhile P (xs @ [c]) = zs @ [c]" by blast
  show ?case
  proof (cases "P x")
    case True
    then show ?thesis using zs by simp
  next
    case False
    then have "dropWhile P ((x # xs) @ [c]) = (x # xs) @ [c]" by simp
    then show ?thesis by blast
  qed
qed

lemma strip_commute:
  "dropWhile is_space (rev (dropWhile is_space (rev y))) = rev (dropWhile is_space (rev (dropWhile is_space y)))"
proof (cases "dropWhile is_space y")
  case Nil
  then have all: "\<forall>x\<in>set y. is_space x" by (simp add: dropWhile_eq_Nil_conv)
  then have e: "dropWhile is_space (rev y) = []" by (simp add: dropWhile_eq_Nil_conv)
  show ?thesis unfolding e Nil by simp
next
  case (Cons c d')
  have nc: "\<not> is_space c" using hd_dropWhile [of is_space y] Cons by auto
  let ?ws = "takeWhile is_space y"
  have "rev y = rev (?ws @ dropWhile is_space y)"
    by (simp only: takeWhile_dropWhile_id)
  then have ry: "rev y = rev (c # d') @ rev ?ws" by (simp add: Cons)
  have "dropWhile is_space (rev (c # d') @ rev ?ws) = dropWhile is_space (rev (c # d')) @ rev ?ws"
    by (rule dropWhile_append1 [of c]) (simp_all add: nc)
  then have r: "dropWhile is_space (rev y) = dropWhile is_space (rev (c # d')) @ rev ?ws"
    by (simp only: ry)
  obtain zs where zs: "dropWhile is_space (rev d' @ [c]) = zs @ [c]"
    using dropWhile_snoc [of is_space c "rev d'"] nc by blast
  have ws: "\<forall>x\<in>set ?ws. is_space x" by (auto dest: set_takeWhileD)
  have "dropWhile is_space (rev (dropWhile is_space (rev y)))
      = dropWhile is_space (?ws @ rev (dropWhile is_space (rev (c # d'))))"
    by (simp add: r)
  also have "\<dots> = dropWhile is_space (rev (dropWhile is_space (rev (c # d'))))"
    using ws by (simp add: dropWhile_append2)
  also have "\<dots> = rev (dropWhile is_space (rev (c # d')))"
    using zs nc by simp
  finally show ?thesis by (simp add: Cons)
qed

lemma strip_filter_strip: "strip (filter (key_char U) (strip a)) = strip (filter (key_char U) a)"
proof -
  define l where "l = dropWhile is_space"
  define r where "r = (\<lambda>x. rev (dropWhile is_space (rev x)))"
  define F where "F = filter (key_char U)"
  have C: "\<And>x. l (r x) = r (l x)"
    unfolding l_def r_def by (rule strip_commute)
  have A: "\<And>x. l (F (l x)) = l (F x)"
    unfolding l_def F_def by (rule lstrip_filter)
  have B: "\<And>x. r (F (r x)) = r (F x)"
    unfolding r_def F_def by (rule rstrip_filter)
  have s: "\<And>x. strip x = r (l x)"
    unfolding l_def r_def strip_def by (rule refl)
  have "r (l (F (r (l a)))) = r (l (F (l (r a))))" by (simp only: C)
  also have "\<dots> = r (l (F (r a)))" by (simp only: A)
  also have "\<dots> = l (r (F (r a)))" by (simp only: C)
  also have "\<dots> = l (r (F a))" by (simp only: B)
  also have "\<dots> = r (l (F a))" by (simp only: C)
  finally show ?thesis unfolding s F_def .
qed

lemma clean_author_strip: "clean_author U (strip a) = clean_author U a"
  by (simp add: clean_author_def strip_filter_strip)


datatype diagnosis = YearMismatch pystr reference | SpellingMismatch pystr reference | MissingReference

definition author_ratio :: "unicode \<Rightarrow> library \<Rightarrow> pystr \<Rightarrow> reference \<Rightarrow> rat" where
  "author_ratio U L a r =
     ratio L (normalize_text_for_comparison U a) (normalize_text_for_comparison U (ref_author r))"

definition same_author :: "unicode \<Rightarrow> pystr \<Rightarrow> reference \<Rightarrow> bool" where
  "same_author U a r = (key_author U (ref_author r) = key_author U a)"

definition best_ratio :: "unicode \<Rightarrow> library \<Rightarrow> pystr \<Rightarrow> references \<Rightarrow> reference \<Rightarrow> bool" where
  "best_ratio U L a refs r = list_all (\<lambda>kr. author_ratio U L a (snd kr) \<le> author_ratio U L a r) refs"

definition diagnose :: "unicode \<Rightarrow> library \<Rightarrow> references \<Rightarrow> citation \<Rightarrow> diagnosis" where
  "diagnose U L refs c =
     (case find (\<lambda>kr. same_author U (strip (author c)) (snd kr) \<and> ref_year (snd kr) \<noteq> year c) refs of
        Some kr \<Rightarrow> YearMismatch (fst kr) (snd kr)
      | None \<Rightarrow>
          (case find (\<lambda>kr. best_ratio U L (strip (author c)) refs (snd kr)) refs of
             Some kr \<Rightarrow>
               if author_ratio U L (strip (author c)) (snd kr) > 8 / 10
               then SpellingMismatch (fst kr) (snd kr) else MissingReference
           | None \<Rightarrow> MissingReference))"

fun record_diagnosis :: "diagnosis \<Rightarrow> citation \<Rightarrow> nat list \<Rightarrow> report \<Rightarrow> report" where
  "record_diagnosis (YearMismatch k r) c locations rep =
     rep\<lparr>year_mismatches := year_mismatches rep
       @ [\<lparr>ym_citation = display c, cited_year = year c, ym_ref_year = ref_year r,
           ym_ref_key = k, ym_locations = locations\<rparr>]\<rparr>"
| "record_diagnosis (SpellingMismatch k r) c locations rep =
     rep\<lparr>spelling_mismatches := spelling_mismatches rep
       @ [\<lparr>sm_citation = display c, cited_author = strip (author c),
           sm_ref_author = ref_author r, sm_ref_key = k, sm_locations = locations\<rparr>]\<rparr>"
| "record_diagnosis MissingReference c locations rep =
     rep\<lparr>missing_refs := missing_refs rep
       @ [\<lparr>mr_reference = display c, cited_at_paragraphs = locations\<rparr>]\<rparr>"

definition keyed :: "unicode \<Rightarrow> references \<Rightarrow> bool" where
  "keyed U refs =
     (distinct (map fst refs)
      \<and> list_all (\<lambda>kr. fst kr = normalize_citation_key U (ref_author (snd kr)) (ref_year (snd kr))) refs)"

lemma find_year_match_find:
  "find_year_match U a refs = find (\<lambda>kr. same_author U a (snd kr)) refs"
  by (induction refs) (auto simp: same_author_def)

lemma unresolved_no_key:
  assumes "match_citation U refs abbr (normalize_citation_key U a y, c) = Inr None"
  shows "map_of refs (normalize_citation_key U a y) = None"
proof (rule ccontr)
  assume n: "map_of refs (normalize_citation_key U a y) \<noteq> None"
  have ne: "normalize_citation_key U a y \<noteq> []"
    by (simp add: normalize_citation_key_clean)
  from n ne have "match_citation U refs abbr (normalize_citation_key U a y, c)
      = Inr (Some (normalize_citation_key U a y))"
    by (simp add: match_citation_def Let_def)
  with assms show False by simp
qed

lemma same_author_year_differs:
  assumes k: "keyed U refs"
    and un: "map_of refs (normalize_citation_key U (author c) (year c)) = None"
    and m: "kr \<in> set refs" and s: "same_author U (strip (author c)) (snd kr)"
  shows "ref_year (snd kr) \<noteq> year c"
proof
  assume y: "ref_year (snd kr) = year c"
  have "fst kr = normalize_citation_key U (ref_author (snd kr)) (ref_year (snd kr))"
    using k m by (auto simp: keyed_def list_all_iff)
  also have "\<dots> = clean_author U (ref_author (snd kr)) @ 124 # year c"
    by (simp add: normalize_citation_key_clean y)
  also have "clean_author U (ref_author (snd kr)) = clean_author U (author c)"
    using s by (simp add: same_author_def key_author_clean clean_author_strip)
  finally have "fst kr = normalize_citation_key U (author c) (year c)"
    by (simp add: normalize_citation_key_clean)
  then have "normalize_citation_key U (author c) (year c) \<in> fst ` set refs"
    using m by force
  then show False using un by (simp add: map_of_eq_None_iff)
qed

lemma year_find_eq:
  assumes "keyed U refs" "map_of refs (normalize_citation_key U (author c) (year c)) = None"
  shows "find (\<lambda>kr. same_author U (strip (author c)) (snd kr) \<and> ref_year (snd kr) \<noteq> year c) refs
       = find (\<lambda>kr. same_author U (strip (author c)) (snd kr)) refs"
  by (rule find_cong [OF refl]) (use same_author_year_differs [OF assms] in blast)


definition norm_ratio :: "unicode \<Rightarrow> library \<Rightarrow> pystr \<Rightarrow> pystr \<times> reference \<Rightarrow> rat" where
  "norm_ratio U L x kr = ratio L x (normalize_text_for_comparison U (ref_author (snd kr)))"

lemma spelling_loop_Cons:
  "spelling_loop U L x (kr # rest) (b, m) =
     (if norm_ratio U L x kr > 8 / 10 \<and> norm_ratio U L x kr > m
      then spelling_loop U L x rest (Some (fst kr), norm_ratio U L x kr)
      else spelling_loop U L x rest (b, m))"
  by (cases kr) (simp add: norm_ratio_def Let_def)

lemma spelling_loop_result:
  "spelling_loop U L x refs (b, m) = (b', m') \<Longrightarrow>
     (b' = b \<and> m' = m \<and> (\<forall>kr\<in>set refs. \<not> (norm_ratio U L x kr > 8 / 10 \<and> norm_ratio U L x kr > m)))
   \<or> (\<exists>pre kr post. refs = pre @ kr # post \<and> b' = Some (fst kr) \<and> m' = norm_ratio U L x kr
         \<and> norm_ratio U L x kr > 8 / 10 \<and> norm_ratio U L x kr > m
         \<and> (\<forall>p\<in>set pre. norm_ratio U L x p < norm_ratio U L x kr)
         \<and> (\<forall>p\<in>set post. norm_ratio U L x p \<le> norm_ratio U L x kr))"
proof (induction refs arbitrary: b m)
  case Nil
  then show ?case by simp
next
  case (Cons h rest)
  let ?rt = "norm_ratio U L x"
  show ?case
  proof (cases "?rt h > 8 / 10 \<and> ?rt h > m")
    case True
    have "spelling_loop U L x (h # rest) (b, m) = spelling_loop U L x rest (Some (fst h), ?rt h)"
      by (simp only: spelling_loop_Cons True simp_thms if_True)
    then have run: "spelling_loop U L x rest (Some (fst h), ?rt h) = (b', m')"
      using Cons.prems by simp
    from Cons.IH [OF run] show ?thesis
    proof
      assume u: "b' = Some (fst h) \<and> m' = ?rt h
        \<and> (\<forall>kr\<in>set rest. \<not> (?rt kr > 8 / 10 \<and> ?rt kr > ?rt h))"
      have "\<forall>p\<in>set rest. ?rt p \<le> ?rt h"
      proof
        fix p assume "p \<in> set rest"
        then have "\<not> (?rt p > 8 / 10 \<and> ?rt p > ?rt h)" using u by blast
        then show "?rt p \<le> ?rt h" using True by auto
      qed
      then have "h # rest = [] @ h # rest \<and> b' = Some (fst h) \<and> m' = ?rt h
         \<and> ?rt h > 8 / 10 \<and> ?rt h > m
         \<and> (\<forall>p\<in>set []. ?rt p < ?rt h) \<and> (\<forall>p\<in>set rest. ?rt p \<le> ?rt h)"
        using u True by simp
      then show ?thesis by blast
    next
      assume "\<exists>pre kr post. rest = pre @ kr # post \<and> b' = Some (fst kr) \<and> m' = ?rt kr
         \<and> ?rt kr > 8 / 10 \<and> ?rt kr > ?rt h
         \<and> (\<forall>p\<in>set pre. ?rt p < ?rt kr) \<and> (\<forall>p\<in>set post. ?rt p \<le> ?rt kr)"
      then obtain pre kr post where d: "rest = pre @ kr # post" "b' = Some (fst kr)" "m' = ?rt kr"
         "?rt kr > 8 / 10" "?rt kr > ?rt h"
         "\<forall>p\<in>set pre. ?rt p < ?rt kr" "\<forall>p\<in>set post. ?rt p \<le> ?rt kr"
        by blast
      have "h # rest = (h # pre) @ kr # post \<and> b' = Some (fst kr) \<and> m' = ?rt kr
         \<and> ?rt kr > 8 / 10 \<and> ?rt kr > m
         \<and> (\<forall>p\<in>set (h # pre). ?rt p < ?rt kr) \<and> (\<forall>p\<in>set post. ?rt p \<le> ?rt kr)"
        using d True by auto
      then show ?thesis by blast
    qed
  next
    case False
    have "spelling_loop U L x (h # rest) (b, m) = spelling_loop U L x rest (b, m)"
      by (simp only: spelling_loop_Cons False if_False)
    then have run: "spelling_loop U L x rest (b, m) = (b', m')"
      using Cons.prems by simp
    from Cons.IH [OF run] show ?thesis
    proof
      assume "b' = b \<and> m' = m \<and> (\<forall>kr\<in>set rest. \<not> (?rt kr > 8 / 10 \<and> ?rt kr > m))"
      then show ?thesis using False by auto
    next
      assume "\<exists>pre kr post. rest = pre @ kr # post \<and> b' = Some (fst kr) \<and> m' = ?rt kr
         \<and> ?rt kr > 8 / 10 \<and> ?rt kr > m
         \<and> (\<forall>p\<in>set pre. ?rt p < ?rt kr) \<and> (\<forall>p\<in>set post. ?rt p \<le> ?rt kr)"
      then obtain pre kr post where d: "rest = pre @ kr # post" "b' = Some (fst kr)" "m' = ?rt kr"
         "?rt kr > 8 / 10" "?rt kr > m"
         "\<forall>p\<in>set pre. ?rt p < ?rt kr" "\<forall>p\<in>set post. ?rt p \<le> ?rt kr"
        by blast
      have "?rt h < ?rt kr" using False d(4,5) by auto
      then have "h # rest = (h # pre) @ kr # post \<and> b' = Some (fst kr) \<and> m' = ?rt kr
         \<and> ?rt kr > 8 / 10 \<and> ?rt kr > m
         \<and> (\<forall>p\<in>set (h # pre). ?rt p < ?rt kr) \<and> (\<forall>p\<in>set post. ?rt p \<le> ?rt kr)"
        using d by auto
      then show ?thesis by blast
    qed
  qed
qed


lemma find_first: "\<forall>p\<in>set pre. \<not> P p \<Longrightarrow> P x \<Longrightarrow> find P (pre @ x # post) = Some x"
  by (induction pre) auto

lemma author_ratio_norm:
  "author_ratio U L a (snd kr) = norm_ratio U L (normalize_text_for_comparison U a) kr"
  by (simp add: author_ratio_def norm_ratio_def)

lemma check_spelling_spec:
  "check_spelling_mismatch U L a refs =
     (case find (\<lambda>kr. best_ratio U L a refs (snd kr)) refs of
        Some kr \<Rightarrow> if author_ratio U L a (snd kr) > 8 / 10 then Some (fst kr) else None
      | None \<Rightarrow> None)"
proof -
  let ?x = "normalize_text_for_comparison U a"
  let ?rt = "norm_ratio U L ?x"
  obtain b' m' where run: "spelling_loop U L ?x refs (None, 0) = (b', m')"
    by (cases "spelling_loop U L ?x refs (None, 0)")
  have c: "check_spelling_mismatch U L a refs = b'"
    by (simp add: check_spelling_mismatch_def run)
  from spelling_loop_result [OF run] show ?thesis
  proof
    assume u: "b' = None \<and> m' = 0 \<and> (\<forall>kr\<in>set refs. \<not> (?rt kr > 8 / 10 \<and> ?rt kr > 0))"
    have low: "\<forall>kr\<in>set refs. \<not> author_ratio U L a (snd kr) > 8 / 10"
    proof
      fix kr assume "kr \<in> set refs"
      then have "\<not> (?rt kr > 8 / 10 \<and> ?rt kr > 0)" using u by blast
      then show "\<not> author_ratio U L a (snd kr) > 8 / 10"
        by (auto simp: author_ratio_norm)
    qed
    show ?thesis
    proof (cases "find (\<lambda>kr. best_ratio U L a refs (snd kr)) refs")
      case None
      then show ?thesis using c u by simp
    next
      case (Some kr)
      then have "kr \<in> set refs" by (auto simp: find_Some_iff)
      then have "\<not> author_ratio U L a (snd kr) > 8 / 10" using low by blast
      then show ?thesis using c u Some by simp
    qed
  next
    assume "\<exists>pre kr post. refs = pre @ kr # post \<and> b' = Some (fst kr) \<and> m' = ?rt kr
         \<and> ?rt kr > 8 / 10 \<and> ?rt kr > 0
         \<and> (\<forall>p\<in>set pre. ?rt p < ?rt kr) \<and> (\<forall>p\<in>set post. ?rt p \<le> ?rt kr)"
    then obtain pre kr post where d: "refs = pre @ kr # post" "b' = Some (fst kr)"
         "?rt kr > 8 / 10"
         "\<forall>p\<in>set pre. ?rt p < ?rt kr" "\<forall>p\<in>set post. ?rt p \<le> ?rt kr"
      by blast
    have best: "best_ratio U L a refs (snd kr)"
      unfolding best_ratio_def list_all_iff author_ratio_norm d(1)
      using d(4,5) by auto
    have nb: "\<forall>p\<in>set pre. \<not> best_ratio U L a refs (snd p)"
    proof
      fix p assume p: "p \<in> set pre"
      have "kr \<in> set refs" by (simp add: d(1))
      moreover have "?rt p < ?rt kr" using d(4) p by blast
      ultimately show "\<not> best_ratio U L a refs (snd p)"
        unfolding best_ratio_def list_all_iff author_ratio_norm by force
    qed
    have "find (\<lambda>kr. best_ratio U L a refs (snd kr)) (pre @ kr # post) = Some kr"
      by (rule find_first) (use nb best in auto)
    then have "find (\<lambda>kr. best_ratio U L a refs (snd kr)) refs = Some kr"
      by (simp add: d(1) [symmetric])
    then show ?thesis using c d(2,3) by (simp add: author_ratio_norm)
  qed
qed

lemma keyed_lookup:
  assumes "keyed U refs" "kr \<in> set refs"
  shows "map_of refs (fst kr) = Some (snd kr)" "fst kr \<noteq> []"
proof -
  have "distinct (map fst refs)" using assms(1) by (simp add: keyed_def)
  then show "map_of refs (fst kr) = Some (snd kr)"
    using assms(2) by (cases kr) simp
  have "fst kr = normalize_citation_key U (ref_author (snd kr)) (ref_year (snd kr))"
    using assms by (auto simp: keyed_def list_all_iff)
  then show "fst kr \<noteq> []" by (simp add: normalize_citation_key_clean)
qed

text \<open>
  The table that \<open>find_references_in_bibliography\<close> builds has distinct keys, each the
  normalized author and year of its entry.
\<close>

lemma dict_set_new: "map_of m k = None \<Longrightarrow> dict_set k v m = m @ [(k, v)]"
  by (induction m) auto

lemma keyed_snoc:
  "keyed U refs \<Longrightarrow> map_of refs k = None
   \<Longrightarrow> k = normalize_citation_key U (ref_author r) (ref_year r)
   \<Longrightarrow> keyed U (refs @ [(k, r)])"
  by (auto simp: keyed_def map_of_eq_None_iff)

lemma bibliography_loop_keyed:
  "keyed U (fst st) \<Longrightarrow> keyed U (fst (bibliography_loop U parse i ps sec st))"
proof (induction U parse i ps sec st rule: bibliography_loop.induct)
  case (1 U parse i sec st)
  then show ?case by simp
next
  case (2 U parse i para rest sec references reference_details abbreviation_map)
  show ?case
    using 2 by (auto simp: Let_def dict_set_new keyed_snoc split: option.splits)
qed

lemma find_references_keyed:
  "keyed U (fst (find_references_in_bibliography U parse paragraphs))"
  unfolding find_references_in_bibliography_def
  by (rule bibliography_loop_keyed) (simp add: keyed_def)

text \<open>
  C4. For a citation that the matcher leaves unresolved (in a reference table whose keys
  are the normalized author and year of its entries), one round of the loop of
  \<open>validate_document\<close> records exactly one diagnosis, the one \<open>diagnose\<close> names:
  a year mismatch with the first reference whose normalized author is the citation's and
  whose year differs; otherwise a spelling mismatch with the first reference of the best
  similarity ratio, when that ratio exceeds 0.80; otherwise a missing reference.
\<close>

theorem unresolved_diagnosis:
  assumes "keyed U refs"
    and "match_citation U refs abbr (normalize_citation_key U (author c) (year c), c) = Inr None"
  shows "process_citation U L refs locations None c rep
           = Inr (add_format_error c locations
                    (record_diagnosis (diagnose U L refs c) c locations rep))"
proof -
  let ?a = "strip (author c)"
  have un: "map_of refs (normalize_citation_key U (author c) (year c)) = None"
    using assms(2) by (rule unresolved_no_key)
  have yf: "find (\<lambda>kr. same_author U ?a (snd kr) \<and> ref_year (snd kr) \<noteq> year c) refs
      = find_year_match U ?a refs"
    by (simp add: year_find_eq [OF assms(1) un] find_year_match_find)
  show ?thesis
  proof (cases "find_year_match U ?a refs")
    case (Some kr)
    then have "diagnose U L refs c = YearMismatch (fst kr) (snd kr)"
      by (simp add: diagnose_def yf)
    then show ?thesis
      using Some by (cases kr) (simp add: process_citation_def Let_def)
  next
    case None
    show ?thesis
    proof (cases "find (\<lambda>kr. best_ratio U L ?a refs (snd kr)) refs")
      case nb: None
      then have "diagnose U L refs c = MissingReference"
        using None by (simp add: diagnose_def yf)
      moreover have "check_spelling_mismatch U L ?a refs = None"
        using nb by (simp add: check_spelling_spec)
      ultimately show ?thesis
        using None by (simp add: process_citation_def Let_def)
    next
      case (Some kr)
      then have m: "kr \<in> set refs" by (auto simp: find_Some_iff)
      show ?thesis
      proof (cases "author_ratio U L ?a (snd kr) > 8 / 10")
        case True
        have "diagnose U L refs c = SpellingMismatch (fst kr) (snd kr)"
          using None Some True by (simp add: diagnose_def yf)
        moreover have "check_spelling_mismatch U L ?a refs = Some (fst kr)"
          using Some True by (simp add: check_spelling_spec)
        ultimately show ?thesis
          using None keyed_lookup [OF assms(1) m]
          by (simp add: process_citation_def Let_def)
      next
        case False
        have "diagnose U L refs c = MissingReference"
          using None Some False by (simp add: diagnose_def yf)
        moreover have "check_spelling_mismatch U L ?a refs = None"
          using Some False by (simp add: check_spelling_spec)
        ultimately show ?thesis
          using None by (simp add: process_citation_def Let_def)
      qed
    qed
  qed
qed


definition refs_sample :: references where
  "refs_sample = [(lit ''Smith|2019'', mk_ref ''Smith'' ''Smith, J.'' ''2019''),
                  (lit ''Brown|2020'', mk_ref ''Brown'' ''Brown, K.'' ''2020'')]"

definition empty_report :: report where
  "empty_report = \<lparr>valid_citations = [], et_al_errors = [], year_mismatches = [],
     spelling_mismatches = [], missing_refs = [], format_errors = []\<rparr>"

lemma key_evals:
  "normalize_citation_key U (lit ''Smith'') y = lit ''Smith|'' @ y"
  "normalize_citation_key U (lit ''Brown'') y = lit ''Brown|'' @ y"
  "normalize_citation_key U (lit ''Jones'') y = lit ''Jones|'' @ y"
  by (simp_all add: normalize_citation_key_def key_char_def text_defs char_defs)

lemma key_author_evals:
  "key_author U (lit ''Smith'') = lit ''Smith''" "key_author U (lit ''Brown'') = lit ''Brown''"
  "key_author U (lit ''Jones'') = lit ''Jones''"
  by (simp_all add: key_author_def key_evals) (simp_all add: first_field_def lit_def)

lemma keyed_sample: "keyed U refs_sample"
  by (simp add: keyed_def refs_sample_def mk_ref_fields key_evals) (simp add: lit_def mk_ref_def)

lemma norm_evals:
  "normalize_text_for_comparison U (lit ''Smith, J.'') = lit ''smith j''"
  "normalize_text_for_comparison U (lit ''Brown, K.'') = lit ''brown k''"
  "normalize_text_for_comparison U (lit ''Brown'') = lit ''brown''"
  "normalize_text_for_comparison U (lit ''Jones'') = lit ''jones''"
  by (simp_all add: normalize_text_for_comparison_def text_defs char_defs)

lemma unmatched_sample:
  "match_citation U refs_sample [] (normalize_citation_key U (author (mk_cite ''Smith'' ''2020''))
       (year (mk_cite ''Smith'' ''2020'')), mk_cite ''Smith'' ''2020'') = Inr None"
proof -
  have a: "author (mk_cite ''Smith'' ''2020'') = lit ''Smith''" "year (mk_cite ''Smith'' ''2020'') = lit ''2020''"
    by (simp_all add: mk_cite_def)
  have w: "words U (lit ''smith j'') = [lit ''smith'']" "words U (lit ''brown k'') = [lit ''brown'']"
    by (simp_all add: text_defs char_defs)
  have cw: "set (words U (lit ''smith'')) - stopwords = {lit ''smith''}"
    by (simp add: w1 stopwords_def) (auto simp: lit_def)
  have k: "card {lit ''smith''} = 1" by simp
  have pm: "prefix_match (lit ''Smith'') = None"
    by (simp add: bracket_here_def char_defs)
  have et: "\<not> contains (lit ''et al'') (lit ''smith'')"
    by (simp add: text_defs char_defs)
  have fw: "first_word (lit ''smith'') = Some (lit ''smith'')"
    by (simp add: text_defs char_defs)
  have ne: "lit ''smith'' \<noteq> lit ''smith j''" "lit ''smith'' \<noteq> lit ''brown k''"
    "lit ''smith'' \<noteq> []" "lit ''2020'' \<noteq> []" "lit ''2019'' \<noteq> lit ''2020''"
    by (simp_all add: lit_def)
  have c1: "smart_candidate U (mk_cite ''Smith'' ''2020'') (mk_ref ''Smith'' ''Smith, J.'' ''2019'') = Inr False"
    by (simp add: smart_candidate_def a mk_ref_fields ne)
  have c2: "smart_candidate U (mk_cite ''Smith'' ''2020'') (mk_ref ''Brown'' ''Brown, K.'' ''2020'') = Inr False"
    by (simp add: smart_candidate_def a mk_ref_fields n1 norm_evals pm et cw k ne)
  have s: "check_smart_match U (mk_cite ''Smith'' ''2020'') refs_sample = Inr None"
    by (simp add: check_smart_match_def refs_sample_def a n1 fw c1 c2)
  show ?thesis
    by (simp add: match_citation_def a key_evals s Let_def)
       (simp add: refs_sample_def lit_def)
qed

text \<open>
  A table with two authors that differ in one letter outside ASCII: \<open>M\<close>, o with
  diaeresis (U+00F6), \<open>ller\<close> and \<open>M\<close>, u with diaeresis, \<open>ller\<close>.
\<close>

definition moller :: pystr where
  "moller = lit ''M'' @ 246 # lit ''ller''"

definition ref_moller :: reference where
  "ref_moller = \<lparr>ref_display = moller @ lit '' (2020)'', ref_author = moller,
     ref_year = lit ''2020'', full_author = Some (moller @ lit '', J.''), abbreviations = []\<rparr>"

definition ref_muller :: reference where
  "ref_muller = \<lparr>ref_display = muller @ lit '' (2019)'', ref_author = muller,
     ref_year = lit ''2019'', full_author = Some (muller @ lit '', K.''), abbreviations = []\<rparr>"

definition refs_umlaut :: references where
  "refs_umlaut = [(moller @ lit ''|2020'', ref_moller), (muller @ lit ''|2019'', ref_muller)]"

definition cite_muller :: citation where
  "cite_muller = \<lparr>display = muller @ lit '' (2020)'', author = muller, year = lit ''2020'',
     warnings = []\<rparr>"

lemma umlaut_keys:
  "normalize_citation_key latin1 muller y = muller @ lit ''|'' @ y"
  "normalize_citation_key latin1 moller y = moller @ lit ''|'' @ y"
  by (simp_all add: normalize_citation_key_def key_char_def muller_def moller_def latin1_def
      text_defs char_defs)

lemma umlaut_key_authors:
  "key_author latin1 muller = muller" "key_author latin1 moller = moller"
  by (simp_all add: key_author_def umlaut_keys) (simp_all add: first_field_def muller_def moller_def lit_def)

lemma keyed_umlaut: "keyed latin1 refs_umlaut"
  by (simp add: keyed_def refs_umlaut_def ref_moller_def ref_muller_def umlaut_keys)
     (simp add: lit_def muller_def moller_def)

lemma umlaut_norms:
  "normalize_text_for_comparison latin1 (moller @ lit '', J.'') = lit ''m'' @ 246 # lit ''ller j''"
  "normalize_text_for_comparison latin1 (muller @ lit '', K.'') = lit ''m'' @ 252 # lit ''ller k''"
  by (simp_all add: normalize_text_for_comparison_def muller_def moller_def latin1_def
      text_defs char_defs)

lemma unmatched_umlaut:
  "match_citation latin1 refs_umlaut []
     (normalize_citation_key latin1 (author cite_muller) (year cite_muller), cite_muller) = Inr None"
proof -
  have a: "author cite_muller = muller" "year cite_muller = lit ''2020''"
    by (simp_all add: cite_muller_def)
  have r: "full_author_of ref_moller = moller @ lit '', J.''" "ref_year ref_moller = lit ''2020''"
    "full_author_of ref_muller = muller @ lit '', K.''" "ref_year ref_muller = lit ''2019''"
    by (simp_all add: ref_moller_def ref_muller_def full_author_of_def)
  have cw: "set (words latin1 (lit ''m'' @ 252 # lit ''ller'')) - stopwords = {}"
    using w4 by simp
  have pm: "prefix_match muller = None"
    by (simp add: muller_def bracket_here_def char_defs)
  have et: "\<not> contains (lit ''et al'') (lit ''m'' @ 252 # lit ''ller'')"
    by (simp add: text_defs char_defs)
  have fw: "first_word (lit ''m'' @ 252 # lit ''ller'') = Some (lit ''m'' @ 252 # lit ''ller'')"
    by (simp add: text_defs char_defs)
  have ne: "lit ''m'' @ 252 # lit ''ller'' \<noteq> lit ''m'' @ 246 # lit ''ller j''"
    "lit ''m'' @ 252 # lit ''ller'' \<noteq> []" "lit ''2020'' \<noteq> []" "lit ''2019'' \<noteq> lit ''2020''"
    by (simp_all add: lit_def)
  have c1: "smart_candidate latin1 cite_muller ref_moller = Inr False"
    by (simp add: smart_candidate_def a r n4 umlaut_norms pm et cw ne)
  have c2: "smart_candidate latin1 cite_muller ref_muller = Inr False"
    by (simp add: smart_candidate_def a r ne)
  have s: "check_smart_match latin1 cite_muller refs_umlaut = Inr None"
    by (simp add: check_smart_match_def refs_umlaut_def a n4 fw c1 c2)
  show ?thesis
    by (simp add: match_citation_def a umlaut_keys s Let_def)
       (simp add: refs_umlaut_def lit_def muller_def moller_def)
qed

theorem unresolved_diagnosis_witness:
  "keyed latin1 refs_sample
   \<and> diagnose latin1 L0 refs_sample (mk_cite ''Smith'' ''2020'')
       = YearMismatch (lit ''Smith|2019'') (mk_ref ''Smith'' ''Smith, J.'' ''2019'')
   \<and> process_citation latin1 L0 refs_sample [3] None (mk_cite ''Smith'' ''2020'') empty_report
       = Inr (empty_report\<lparr>year_mismatches :=
               [\<lparr>ym_citation = lit ''Smith (2020)'', cited_year = lit ''2020'',
                 ym_ref_year = lit ''2019'', ym_ref_key = lit ''Smith|2019'',
                 ym_locations = [3]\<rparr>]\<rparr>)
   \<and> keyed latin1 refs_umlaut
   \<and> key_author latin1 moller \<noteq> key_author latin1 muller
   \<and> diagnose latin1 L0 refs_umlaut cite_muller = YearMismatch (muller @ lit ''|2019'') ref_muller
   \<and> process_citation latin1 L0 refs_umlaut [3] None cite_muller empty_report
       = Inr (empty_report\<lparr>year_mismatches :=
               [\<lparr>ym_citation = muller @ lit '' (2020)'', cited_year = lit ''2020'',
                 ym_ref_year = lit ''2019'', ym_ref_key = muller @ lit ''|2019'',
                 ym_locations = [3]\<rparr>]\<rparr>)"
proof -
  have a: "author (mk_cite ''Smith'' ''2020'') = lit ''Smith''" "year (mk_cite ''Smith'' ''2020'') = lit ''2020''"
    "display (mk_cite ''Smith'' ''2020'') = lit ''Smith (2020)''" "warnings (mk_cite ''Smith'' ''2020'') = []"
    by (simp_all add: mk_cite_def lit_def)
  have st: "strip (lit ''Smith'') = lit ''Smith''"
    by (simp add: text_defs char_defs)
  have d: "diagnose latin1 L0 refs_sample (mk_cite ''Smith'' ''2020'')
       = YearMismatch (lit ''Smith|2019'') (mk_ref ''Smith'' ''Smith, J.'' ''2019'')"
    by (simp add: diagnose_def a st refs_sample_def same_author_def mk_ref_fields key_author_evals)
       (simp add: lit_def)
  have p: "process_citation latin1 L0 refs_sample [3] None (mk_cite ''Smith'' ''2020'') empty_report
       = Inr (empty_report\<lparr>year_mismatches :=
               [\<lparr>ym_citation = lit ''Smith (2020)'', cited_year = lit ''2020'',
                 ym_ref_year = lit ''2019'', ym_ref_key = lit ''Smith|2019'',
                 ym_locations = [3]\<rparr>]\<rparr>)"
    using unresolved_diagnosis [OF keyed_sample unmatched_sample, of latin1 L0 "[3]" empty_report]
    by (simp add: d add_format_error_def a mk_ref_fields empty_report_def)
  have b: "author cite_muller = muller" "year cite_muller = lit ''2020''"
    "display cite_muller = muller @ lit '' (2020)''" "warnings cite_muller = []"
    by (simp_all add: cite_muller_def)
  have r: "ref_author ref_moller = moller" "ref_year ref_moller = lit ''2020''"
    "ref_author ref_muller = muller" "ref_year ref_muller = lit ''2019''"
    by (simp_all add: ref_moller_def ref_muller_def)
  have sm: "strip muller = muller"
    by (simp add: muller_def text_defs char_defs)
  have kd: "key_author latin1 moller \<noteq> key_author latin1 muller"
    by (simp add: umlaut_key_authors) (simp add: muller_def moller_def lit_def)
  have du: "diagnose latin1 L0 refs_umlaut cite_muller = YearMismatch (muller @ lit ''|2019'') ref_muller"
    using kd by (simp add: diagnose_def b sm refs_umlaut_def same_author_def r)
       (simp add: lit_def)
  have pu: "process_citation latin1 L0 refs_umlaut [3] None cite_muller empty_report
       = Inr (empty_report\<lparr>year_mismatches :=
               [\<lparr>ym_citation = muller @ lit '' (2020)'', cited_year = lit ''2020'',
                 ym_ref_year = lit ''2019'', ym_ref_key = muller @ lit ''|2019'',
                 ym_locations = [3]\<rparr>]\<rparr>)"
    using unresolved_diagnosis [OF keyed_umlaut unmatched_umlaut, of L0 "[3]" empty_report]
    by (simp add: du add_format_error_def b r empty_report_def)
  from keyed_sample [of latin1] d p keyed_umlaut kd du pu show ?thesis by simp
qed

subsection \<open>Duplicate detection\<close>

definition pair_report :: "library \<Rightarrow> 'k \<times> pystr \<Rightarrow> 'k \<times> pystr \<Rightarrow> 'k duplicate list" where
  "pair_report L a b =
     (if snd a = [] \<or> snd b = [] then []
      else if length_ratio (snd a) (snd b) < 6 / 10 then []
      else if ratio L (snd a) (snd b) > 85 / 100 then
        [\<lparr>dup_id = fst b, dup_text = take 100 (snd b), duplicate_of = fst a,
          score = round1 L (ratio L (snd a) (snd b) * 100)\<rparr>]
      else [])"

definition all_pairs :: "('a \<Rightarrow> 'a \<Rightarrow> 'b list) \<Rightarrow> 'a list \<Rightarrow> 'b list" where
  "all_pairs f xs =
     concat (map (\<lambda>i. concat (map (\<lambda>j. f (xs ! i) (xs ! j)) [i + 1..<length xs])) [0..<length xs])"

lemma all_pairs_Nil: "all_pairs f [] = []"
  by (simp add: all_pairs_def)

lemma all_pairs_Cons: "all_pairs f (x # xs) = concat (map (f x) xs) @ all_pairs f xs"
proof -
  have u: "[0..<length (x # xs)] = 0 # map Suc [0..<length xs]"
    by (simp add: upt_conv_Cons map_Suc_upt del: upt_Suc)
  have h: "map (\<lambda>j. f ((x # xs) ! 0) ((x # xs) ! j)) [0 + 1..<length (x # xs)] = map (f x) xs"
  proof -
    have "[0 + 1..<length (x # xs)] = map Suc [0..<length xs]"
      by (simp add: map_Suc_upt)
    then have "map (\<lambda>j. f ((x # xs) ! 0) ((x # xs) ! j)) [0 + 1..<length (x # xs)]
        = map (\<lambda>j. f x (xs ! j)) [0..<length xs]"
      by (simp add: comp_def)
    also have "\<dots> = map (f x) (map ((!) xs) [0..<length xs])" by (simp add: comp_def)
    also have "\<dots> = map (f x) xs" by (simp only: map_nth)
    finally show ?thesis .
  qed
  have t: "\<And>i. map (\<lambda>j. f ((x # xs) ! Suc i) ((x # xs) ! j)) [Suc i + 1..<length (x # xs)]
      = map (\<lambda>j. f (xs ! i) (xs ! j)) [i + 1..<length xs]"
  proof -
    fix i
    have "[Suc i + 1..<length (x # xs)] = map Suc [i + 1..<length xs]"
      by (simp add: map_Suc_upt)
    then show "map (\<lambda>j. f ((x # xs) ! Suc i) ((x # xs) ! j)) [Suc i + 1..<length (x # xs)]
      = map (\<lambda>j. f (xs ! i) (xs ! j)) [i + 1..<length xs]"
      by (simp add: comp_def)
  qed
  show ?thesis
    unfolding all_pairs_def u
    by (simp only: list.map concat.simps h map_map comp_def t)
qed

lemma apa_dup_inner_pairs: "apa_dup_inner L a bs = concat (map (pair_report L a) bs)"
  by (induction bs) (auto simp: pair_report_def)

lemma apa_dup_outer_pairs: "apa_dup_outer L xs = all_pairs (pair_report L) xs"
  by (induction xs) (simp_all add: all_pairs_Nil all_pairs_Cons apa_dup_inner_pairs)


definition bounded :: "library \<Rightarrow> bool" where
  "bounded L = ((\<forall>a b. ratio L a b \<le> quick_ratio L a b) \<and> (\<forall>a b. ratio L a b \<le> real_quick_ratio L a b))"

lemma guards_inner:
  "bounded L \<Longrightarrow> num_dup_inner L a bs = num_dup_inner_unguarded L a bs"
proof (induction bs)
  case Nil
  show ?case by simp
next
  case (Cons b bs)
  have q: "ratio L (snd a) (snd b) \<le> quick_ratio L (snd a) (snd b)"
    and r: "ratio L (snd a) (snd b) \<le> real_quick_ratio L (snd a) (snd b)"
    using Cons.prems by (simp_all add: bounded_def)
  show ?case using Cons q r by auto
qed

lemma guards_outer:
  "bounded L \<Longrightarrow> num_dup_outer L xs = num_dup_outer_unguarded L xs"
  by (induction xs) (simp_all add: guards_inner)

definition with_dots :: "'k duplicate \<Rightarrow> 'k duplicate" where
  "with_dots d = d\<lparr>dup_text := dup_text d @ lit ''...''\<rparr>"

lemma unguarded_inner_pairs:
  "snd a \<noteq> [] \<Longrightarrow>
   num_dup_inner_unguarded L a bs = map with_dots (concat (map (pair_report L a) bs))"
  by (induction bs) (auto simp: pair_report_def with_dots_def)

lemma pair_report_empty: "snd a = [] \<Longrightarrow> concat (map (pair_report L a) bs) = []"
  by (induction bs) (auto simp: pair_report_def)

lemma unguarded_outer_pairs:
  "num_dup_outer_unguarded L xs = map with_dots (all_pairs (pair_report L) xs)"
  by (induction xs)
     (simp_all add: all_pairs_Nil all_pairs_Cons unguarded_inner_pairs pair_report_empty)

text \<open>
  Both duplicate checks go through the unordered pairs of the texts they are given, the
  earlier index first, and \<open>pair_report\<close> is what one pair contributes. The variant of
  the numeral checker compares the paragraph texts without their leading number and ends
  each text snippet with three dots; it is the same list whenever the two quick ratios are
  upper bounds of the ratio.
\<close>

lemma find_duplicates_pairs:
  "find_duplicates L references reference_details
     = all_pairs (pair_report L) (processed_refs references reference_details)
   \<and> (bounded L \<longrightarrow>
        num_find_duplicates L ref_objects
          = map with_dots (all_pairs (pair_report L) (num_processed_refs ref_objects)))"
  by (simp add: find_duplicates_def apa_dup_outer_pairs num_find_duplicates_def
      guards_outer unguarded_outer_pairs)

text \<open>
  A parser for the examples. It gives the text before the first comma as the author, the
  four characters after the first opening parenthesis as the year and the text before that
  parenthesis as the full author; these are the values of
  \<open>APACitationParser.parse_reference\<close> on an entry of the form
  \<open>Surname, I., ..., Surname, I. (year). Title.\<close> without \<open>&\<close> and brackets.
\<close>

definition parse_sample :: "pystr \<Rightarrow> parsed option" where
  "parse_sample text =
     (case dropWhile (\<lambda>c. c \<noteq> 40) text of
        [] \<Rightarrow> None
      | _ # rest \<Rightarrow>
          Some \<lparr>parsed_author = takeWhile (\<lambda>c. c \<noteq> 44) text, parsed_year = take 4 rest,
                parsed_full_author = strip (takeWhile (\<lambda>c. c \<noteq> 40) text),
                parsed_abbreviations = []\<rparr>)"

text \<open>
  Two entries by the same nine authors, with different years and titles. The list of the
  authors takes the first 160 characters of both.
\<close>

definition entry_authors :: string where
  "entry_authors = ''Abcdefghij, A. B., Abcdefghij, A. B., Abcdefghij, A. B., Abcdefghij, A. B., Abcdefghij, A. B., Abcdefghij, A. B., Abcdefghij, A. B., Abcdefghij, A. B., Zeta, Z.''"

definition entry_a :: pystr where
  "entry_a = lit (entry_authors @ '' (2019). One.'')"

definition entry_b :: pystr where
  "entry_b = lit (entry_authors @ '' (2020). A second and different work with a title that goes on for much longer than the title of the first one, and then some more words.'')"

lemma tags:
  "strip (lit ''<ref-open>'') = lit ''<ref-open>''"
  "strip (lit ''<ref-close>'') = lit ''<ref-close>''"
  "contains (lit ''<ref-open>'') (lit ''<ref-open>'')"
  "\<not> contains (lit ''<ref-open>'') (lit ''<ref-close>'')"
  "contains (lit ''<ref-close>'') (lit ''<ref-close>'')"
  by (simp_all add: text_defs char_defs)

lemma stored_text_nonempty: "a \<noteq> [] \<Longrightarrow> stored_text a \<noteq> []"
  by (cases a) (simp_all add: stored_text_def)

lemma num_find_duplicates_pair:
  assumes "bounded L"
  shows "num_find_duplicates L [obj_a, obj_b] =
     (let text_a = clean_text (strip (para_text (ref_para obj_a)));
          text_b = clean_text (strip (para_text (ref_para obj_b)))
      in if text_a = [] \<or> text_b = [] then []
         else if (of_nat (min (length text_a) (length text_b)) :: rat)
                   / of_nat (max (length text_a) (length text_b)) < 6 / 10 then []
         else if ratio L text_a text_b > 85 / 100 then
           [\<lparr>dup_id = ref_id obj_b, dup_text = take 100 text_b @ lit ''...'',
             duplicate_of = ref_id obj_a,
             score = round1 L (ratio L text_a text_b * 100)\<rparr>]
         else [])"
  unfolding num_find_duplicates_def guards_outer [OF assms]
  by (simp add: num_processed_refs_def Let_def length_ratio_def)

text \<open>Two entries of a numbered bibliography with the same text after their numbers.\<close>

definition num_objects :: "ref_object list" where
  "num_objects =
     [\<lparr>ref_id = 1, ref_para = ref_entry ''1. Smith, J. (2020). A study.'', ref_index = 4, ref_run = None\<rparr>,
      \<lparr>ref_id = 2, ref_para = ref_entry ''[2] Smith, J. (2020). A study.'', ref_index = 5, ref_run = None\<rparr>]"

lemma num_objects_texts:
  "clean_text (strip (para_text (ref_entry ''1. Smith, J. (2020). A study.''))) = lit ''Smith, J. (2020). A study.''"
  "clean_text (strip (para_text (ref_entry ''[2] Smith, J. (2020). A study.''))) = lit ''Smith, J. (2020). A study.''"
  by (simp_all add: ref_entry_def text_run_def para_text_def strip_def clean_text_def char_defs)

text \<open>
  C6. The source does not keep the claim on the reference table of the name-year checker.
  For a bibliography of two entries \<open>a\<close> and \<open>b\<close> that the parser reads,
  \<open>validate_document\<close> reports what the theorem says: nothing when the two entries have
  the same normalized author and year, because the second one is never stored; otherwise
  the length test, the similarity ratio, the threshold 0.85 and the rounded score of the
  claim, but on the first 150 characters of each entry followed by three dots, not on the
  full entry texts. So two different entries that agree on their first 150 characters
  are reported with the score of identical texts, whatever follows and however different
  their lengths are, and a repeated entry is not reported at all. The variant of the
  numeral checker does what the claim says for its two entries, on the paragraph texts
  without their leading number, when the two quick ratios are upper bounds of the ratio.
\<close>

theorem duplicate_detection_texts:
  assumes "strip a = a" "a \<noteq> []"
    and "\<not> contains (lit ''<ref-open>'') a" "\<not> contains (lit ''<ref-close>'') a"
    and "strip b = b" "b \<noteq> []"
    and "\<not> contains (lit ''<ref-open>'') b" "\<not> contains (lit ''<ref-close>'') b"
    and "parse a = Some ref_a" "parse b = Some ref_b"
  shows "document_duplicates U L parse [lit ''<ref-open>'', a, b, lit ''<ref-close>''] =
     (let key_a = normalize_citation_key U (parsed_author ref_a) (parsed_year ref_a);
          key_b = normalize_citation_key U (parsed_author ref_b) (parsed_year ref_b);
          text_a = take 150 a @ (if length a > 150 then lit ''...'' else []);
          text_b = take 150 b @ (if length b > 150 then lit ''...'' else [])
      in if key_b = key_a then []
         else if (of_nat (min (length text_a) (length text_b)) :: rat)
                   / of_nat (max (length text_a) (length text_b)) < 6 / 10 then []
         else if ratio L text_a text_b > 85 / 100 then
           [\<lparr>dup_id = key_b, dup_text = take 100 text_b, duplicate_of = key_a,
             score = round1 L (ratio L text_a text_b * 100)\<rparr>]
         else [])
   \<and> ((\<forall>x y. ratio L x y \<le> quick_ratio L x y) \<and> (\<forall>x y. ratio L x y \<le> real_quick_ratio L x y)
       \<longrightarrow> num_find_duplicates L [obj_a, obj_b] =
          (let text_a = clean_text (strip (para_text (ref_para obj_a)));
               text_b = clean_text (strip (para_text (ref_para obj_b)))
           in if text_a = [] \<or> text_b = [] then []
              else if (of_nat (min (length text_a) (length text_b)) :: rat)
                        / of_nat (max (length text_a) (length text_b)) < 6 / 10 then []
              else if ratio L text_a text_b > 85 / 100 then
                [\<lparr>dup_id = ref_id obj_b, dup_text = take 100 text_b @ lit ''...'',
                  duplicate_of = ref_id obj_a,
                  score = round1 L (ratio L text_a text_b * 100)\<rparr>]
              else []))"
proof (intro conjI impI)
  assume "(\<forall>x y. ratio L x y \<le> quick_ratio L x y) \<and> (\<forall>x y. ratio L x y \<le> real_quick_ratio L x y)"
  then have "bounded L" by (simp add: bounded_def)
  then show "num_find_duplicates L [obj_a, obj_b] =
          (let text_a = clean_text (strip (para_text (ref_para obj_a)));
               text_b = clean_text (strip (para_text (ref_para obj_b)))
           in if text_a = [] \<or> text_b = [] then []
              else if (of_nat (min (length text_a) (length text_b)) :: rat)
                        / of_nat (max (length text_a) (length text_b)) < 6 / 10 then []
              else if ratio L text_a text_b > 85 / 100 then
                [\<lparr>dup_id = ref_id obj_b, dup_text = take 100 text_b @ lit ''...'',
                  duplicate_of = ref_id obj_a,
                  score = round1 L (ratio L text_a text_b * 100)\<rparr>]
              else [])"
    by (rule num_find_duplicates_pair)
next
  let ?ka = "normalize_citation_key U (parsed_author ref_a) (parsed_year ref_a)"
  let ?kb = "normalize_citation_key U (parsed_author ref_b) (parsed_year ref_b)"
  let ?ra = "\<lparr>ref_display = parsed_author ref_a @ lit '' ('' @ parsed_year ref_a @ lit '')'',
             ref_author = parsed_author ref_a, ref_year = parsed_year ref_a,
             full_author = Some (parsed_full_author ref_a),
             abbreviations = parsed_abbreviations ref_a\<rparr>"
  let ?rb = "\<lparr>ref_display = parsed_author ref_b @ lit '' ('' @ parsed_year ref_b @ lit '')'',
             ref_author = parsed_author ref_b, ref_year = parsed_year ref_b,
             full_author = Some (parsed_full_author ref_b),
             abbreviations = parsed_abbreviations ref_b\<rparr>"
  have na: "stored_text a \<noteq> []" and nb: "stored_text b \<noteq> []"
    using assms(2,6) by (simp_all add: stored_text_nonempty)
  let ?t = "find_references_in_bibliography U parse [lit ''<ref-open>'', a, b, lit ''<ref-close>'']"
  have dd: "document_duplicates U L parse [lit ''<ref-open>'', a, b, lit ''<ref-close>'']
      = find_duplicates L (fst ?t) (fst (snd ?t))"
    by (simp add: document_duplicates_def split_beta)
  show "document_duplicates U L parse [lit ''<ref-open>'', a, b, lit ''<ref-close>''] =
     (let key_a = normalize_citation_key U (parsed_author ref_a) (parsed_year ref_a);
          key_b = normalize_citation_key U (parsed_author ref_b) (parsed_year ref_b);
          text_a = take 150 a @ (if length a > 150 then lit ''...'' else []);
          text_b = take 150 b @ (if length b > 150 then lit ''...'' else [])
      in if key_b = key_a then []
         else if (of_nat (min (length text_a) (length text_b)) :: rat)
                   / of_nat (max (length text_a) (length text_b)) < 6 / 10 then []
         else if ratio L text_a text_b > 85 / 100 then
           [\<lparr>dup_id = key_b, dup_text = take 100 text_b, duplicate_of = key_a,
             score = round1 L (ratio L text_a text_b * 100)\<rparr>]
         else [])"
  proof (cases "?kb = ?ka")
    case True
    have "fst ?t = [(?ka, ?ra)]"
      and "fst (snd ?t) = [(?ka, \<lparr>line = 2, detail_text = stored_text a\<rparr>)]"
      using assms True by (simp_all add: find_references_in_bibliography_def tags Let_def)
    then show ?thesis
      using True by (simp add: dd find_duplicates_def processed_refs_def Let_def)
  next
    case False
    then have f: "?ka \<noteq> ?kb" by simp
    have "fst ?t = [(?ka, ?ra), (?kb, ?rb)]"
      and "fst (snd ?t) = [(?ka, \<lparr>line = 2, detail_text = stored_text a\<rparr>),
               (?kb, \<lparr>line = 3, detail_text = stored_text b\<rparr>)]"
      using assms False f by (simp_all add: find_references_in_bibliography_def tags Let_def)
    then show ?thesis
      using False f na nb
      by (simp add: dd find_duplicates_def processed_refs_def Let_def
          length_ratio_def stored_text_def)
  qed
qed

lemma entry_facts:
  "strip entry_a = entry_a" "entry_a \<noteq> []"
  "\<not> contains (lit ''<ref-open>'') entry_a" "\<not> contains (lit ''<ref-close>'') entry_a"
  "strip entry_b = entry_b" "entry_b \<noteq> []"
  "\<not> contains (lit ''<ref-open>'') entry_b" "\<not> contains (lit ''<ref-close>'') entry_b"
  by (simp_all add: entry_a_def entry_b_def entry_authors_def text_defs char_defs)

lemma entry_parsed:
  "parse_sample entry_a = Some \<lparr>parsed_author = lit ''Abcdefghij'', parsed_year = lit ''2019'',
     parsed_full_author = lit entry_authors, parsed_abbreviations = []\<rparr>"
  "parse_sample entry_b = Some \<lparr>parsed_author = lit ''Abcdefghij'', parsed_year = lit ''2020'',
     parsed_full_author = lit entry_authors, parsed_abbreviations = []\<rparr>"
  by (simp_all add: parse_sample_def entry_a_def entry_b_def entry_authors_def text_defs char_defs)

lemma entry_keys:
  "normalize_citation_key U (lit ''Abcdefghij'') y = lit ''Abcdefghij|'' @ y"
  by (simp add: normalize_citation_key_def key_char_def text_defs char_defs)

lemma entry_lengths: "length entry_a = 173" "length entry_b = 297"
  by (simp_all add: entry_a_def entry_b_def entry_authors_def lit_def)

lemma entry_stored:
  "take 150 entry_a = lit (take 150 entry_authors)" "take 150 entry_b = lit (take 150 entry_authors)"
  by (simp_all add: entry_a_def entry_b_def entry_authors_def lit_def)

theorem duplicate_detection_texts_witness:
  "entry_a \<noteq> entry_b
   \<and> (of_nat (min (length entry_a) (length entry_b)) :: rat)
        / of_nat (max (length entry_a) (length entry_b)) < 6 / 10
   \<and> document_duplicates latin1 L0 parse_sample [lit ''<ref-open>'', entry_a, entry_b, lit ''<ref-close>'']
       = [\<lparr>dup_id = lit ''Abcdefghij|2020'', dup_text = lit (take 100 entry_authors),
           duplicate_of = lit ''Abcdefghij|2019'', score = 100\<rparr>]
   \<and> document_duplicates latin1 L0 parse_sample [lit ''<ref-open>'', entry_a, entry_a, lit ''<ref-close>'']
       = []
   \<and> (\<forall>x y. ratio L0 x y \<le> quick_ratio L0 x y)
   \<and> (\<forall>x y. ratio L0 x y \<le> real_quick_ratio L0 x y)
   \<and> num_find_duplicates L0 num_objects
       = [\<lparr>dup_id = 2, dup_text = lit ''Smith, J. (2020). A study....'', duplicate_of = 1, score = 100\<rparr>]"
proof -
  have d: "entry_a \<noteq> entry_b"
    using entry_lengths by auto
  have l: "(of_nat (min (length entry_a) (length entry_b)) :: rat)
        / of_nat (max (length entry_a) (length entry_b)) < 6 / 10"
    by (simp add: entry_lengths)
  have k: "lit ''Abcdefghij|'' @ lit ''2020'' \<noteq> lit ''Abcdefghij|'' @ lit ''2019''"
    by (simp add: lit_def)
  have two: "document_duplicates latin1 L0 parse_sample [lit ''<ref-open>'', entry_a, entry_b, lit ''<ref-close>'']
       = [\<lparr>dup_id = lit ''Abcdefghij|2020'', dup_text = lit (take 100 entry_authors),
           duplicate_of = lit ''Abcdefghij|2019'', score = 100\<rparr>]"
    using duplicate_detection_texts [where parse = parse_sample and a = entry_a and b = entry_b
        and U = latin1 and L = L0, OF entry_facts(1-4) entry_facts(5-8) entry_parsed] k
    by (simp add: Let_def entry_keys entry_lengths entry_stored L0_def)
       (simp add: lit_def entry_authors_def)
  have one: "document_duplicates latin1 L0 parse_sample [lit ''<ref-open>'', entry_a, entry_a, lit ''<ref-close>''] = []"
    using duplicate_detection_texts [where parse = parse_sample and a = entry_a and b = entry_a
        and U = latin1 and L = L0, OF entry_facts(1-4) entry_facts(1-4) entry_parsed(1) entry_parsed(1)]
    by (simp add: Let_def)
  have q: "\<forall>x y. ratio L0 x y \<le> quick_ratio L0 x y"
    and r: "\<forall>x y. ratio L0 x y \<le> real_quick_ratio L0 x y"
    by (simp_all add: L0_def)
  have n: "num_find_duplicates L0 num_objects
       = [\<lparr>dup_id = 2, dup_text = lit ''Smith, J. (2020). A study....'', duplicate_of = 1, score = 100\<rparr>]"
    using duplicate_detection_texts [where parse = parse_sample and a = entry_a and b = entry_a
        and U = latin1 and L = L0
        and obj_a = "\<lparr>ref_id = 1, ref_para = ref_entry ''1. Smith, J. (2020). A study.'',
                      ref_index = 4, ref_run = None\<rparr>"
        and obj_b = "\<lparr>ref_id = 2, ref_para = ref_entry ''[2] Smith, J. (2020). A study.'',
                      ref_index = 5, ref_run = None\<rparr>",
        OF entry_facts(1-4) entry_facts(1-4) entry_parsed(1) entry_parsed(1)] q r
    by (simp add: num_objects_def num_objects_texts Let_def)
       (simp add: L0_def lit_def)
  from d l two one q r n show ?thesis by simp
qed

text \<open>
  C10. When \<open>quick_ratio\<close> and \<open>real_quick_ratio\<close> are upper bounds of \<open>ratio\<close>
  (as difflib documents them), the two guards of \<open>ReferenceProcessor.find_duplicates\<close>
  never change the result: it equals the same computation with the guards removed.
\<close>

theorem quick_ratio_guards_redundant:
  assumes "\<forall>a b. ratio L a b \<le> quick_ratio L a b"
    and "\<forall>a b. ratio L a b \<le> real_quick_ratio L a b"
  shows "num_find_duplicates L ref_objects = num_find_duplicates_unguarded L ref_objects"
proof -
  have "bounded L" using assms by (simp add: bounded_def)
  then show ?thesis
    by (simp add: num_find_duplicates_def num_find_duplicates_unguarded_def guards_outer)
qed


definition dup_refs :: references where
  "dup_refs = [(lit ''Smith|2020'', mk_ref ''Smith'' ''Smith, J.'' ''2020''),
               (lit ''Smith|2020a'', mk_ref ''Smith'' ''Smith, J.'' ''2020a''),
               (lit ''Brown|2020'', mk_ref ''Brown'' ''Brown, K.'' ''2020'')]"

definition dup_details :: "(pystr \<times> ref_detail) list" where
  "dup_details = [(lit ''Smith|2020'', \<lparr>line = 7, detail_text = lit ''Smith, J. (2020). A study.''\<rparr>),
                  (lit ''Smith|2020a'', \<lparr>line = 8, detail_text = lit ''Smith, J. (2020). A study.''\<rparr>),
                  (lit ''Brown|2020'', \<lparr>line = 9, detail_text = lit ''Brown, K. (2020). Another.''\<rparr>)]"

lemma processed_dup:
  "processed_refs dup_refs dup_details =
     [(lit ''Smith|2020'', lit ''Smith, J. (2020). A study.''),
      (lit ''Smith|2020a'', lit ''Smith, J. (2020). A study.''),
      (lit ''Brown|2020'', lit ''Brown, K. (2020). Another.'')]"
  by (simp add: processed_refs_def dup_refs_def dup_details_def lit_def)

lemma bounded_L0: "bounded L0"
  by (simp add: bounded_def L0_def)

lemma find_duplicates_pairs_sample:
  "bounded L0
   \<and> find_duplicates L0 dup_refs dup_details
       = [\<lparr>dup_id = lit ''Smith|2020a'', dup_text = lit ''Smith, J. (2020). A study.'',
           duplicate_of = lit ''Smith|2020'', score = 100\<rparr>]"
proof -
  have "find_duplicates L0 dup_refs dup_details
      = all_pairs (pair_report L0) (processed_refs dup_refs dup_details)"
    using find_duplicates_pairs [of L0 dup_refs dup_details "[]"] by blast
  also have "\<dots> = [\<lparr>dup_id = lit ''Smith|2020a'', dup_text = lit ''Smith, J. (2020). A study.'',
           duplicate_of = lit ''Smith|2020'', score = 100\<rparr>]"
    unfolding processed_dup
    by (simp add: all_pairs_Cons all_pairs_Nil pair_report_def length_ratio_def L0_def lit_def)
  finally show ?thesis using bounded_L0 by simp
qed

definition dup_objects :: "ref_object list" where
  "dup_objects =
     [\<lparr>ref_id = 1, ref_para = ref_entry ''1. Smith, J. (2020). A study.'', ref_index = 4, ref_run = None\<rparr>,
      \<lparr>ref_id = 2, ref_para = ref_entry ''2. Smith, J. (2020). A study.'', ref_index = 5, ref_run = None\<rparr>]"

theorem quick_ratio_guards_redundant_witness:
  "(\<forall>a b. ratio L0 a b \<le> quick_ratio L0 a b)
   \<and> (\<forall>a b. ratio L0 a b \<le> real_quick_ratio L0 a b)
   \<and> num_find_duplicates L0 dup_objects = num_find_duplicates_unguarded L0 dup_objects
   \<and> num_find_duplicates_unguarded L0 dup_objects
       = [\<lparr>dup_id = 2, dup_text = lit ''Smith, J. (2020). A study....'', duplicate_of = 1, score = 100\<rparr>]"
proof -
  have q: "\<forall>a b. ratio L0 a b \<le> quick_ratio L0 a b"
    and r: "\<forall>a b. ratio L0 a b \<le> real_quick_ratio L0 a b"
    by (simp_all add: L0_def)
  have p: "num_processed_refs dup_objects
      = [(1, lit ''Smith, J. (2020). A study.''), (2, lit ''Smith, J. (2020). A study.'')]"
    by (simp add: num_processed_refs_def dup_objects_def ref_entry_def text_run_def para_text_def
        strip_def clean_text_def char_defs)
  have u: "num_find_duplicates_unguarded L0 dup_objects
       = [\<lparr>dup_id = 2, dup_text = lit ''Smith, J. (2020). A study....'', duplicate_of = 1, score = 100\<rparr>]"
    unfolding num_find_duplicates_unguarded_def p
    by (simp add: length_ratio_def L0_def lit_def)
  from quick_ratio_guards_redundant [OF q r, of dup_objects] q r u show ?thesis by simp
qed

end
